theory Spec2Isabelle
  imports Complex_Main "HOL-Library.Word" "HOL-Library.Char_ord" "HOL-Library.List_Lexorder"
begin

unbundle bit_operations_syntax

section \<open>Conventions\<close>

text \<open>
  The development follows the JavaScript sources of the storage engine: BloomFilter and
  Compaction (Compaction.js), SSTable and SSTableManager (SSTable.js), SkipList
  (Skiplist.js) and LSMTree (LSMTree.js).

  Keys are JavaScript strings, compared with \<open><\<close> code unit by code unit; they are modelled
  as \<open>string\<close> with the lexicographic order on lists of characters. A value is any
  JavaScript value; \<open>null\<close>, which the engine uses as the tombstone, is \<open>None\<close>.

  Timing fields (\<open>performance.now()\<close>, \<open>timeMs\<close>), the visualisation traces (\<open>steps\<close>,
  \<open>path\<close>, comparison counters, \<open>complexity\<close> strings), the observer callbacks and the
  display-only fields \<open>createdAt\<close> of a table and \<open>timestamp\<close> of a compaction record are
  left out: no operation reads them.

  Three quantities of the sources are computed in floating point or depend on the shape of
  the stored values. They are parameters of the model, collected in a record:
  \<^item> \<open>bloomSize n\<close> is \<open>Math.ceil(-(n * Math.log(0.01)) / (Math.log(2) ** 2))\<close>,
  \<^item> \<open>bloomHashes m n\<close> is \<open>Math.ceil((m / n) * Math.log(2))\<close>,
  \<^item> \<open>jsonLength v\<close> is \<open>JSON.stringify(v).length\<close> for a value \<open>v\<close> other than
    \<open>null\<close>. It is \<open>None\<close> when the expression throws a TypeError: \<open>JSON.stringify\<close>
    returns \<open>undefined\<close> for \<open>undefined\<close>, a function or a symbol, and throws for a BigInt
    or a cyclic object.
\<close>

record 'v platform =
  bloomSize :: "nat \<Rightarrow> nat"
  bloomHashes :: "nat \<Rightarrow> nat \<Rightarrow> nat"
  jsonLength :: "'v \<Rightarrow> nat option"

datatype error = TypeError

section \<open>BloomFilter\<close>

text \<open>
  \<open>bf_bits\<close> is the \<open>Uint8Array\<close>. When \<open>size\<close> is 0 the expression for \<open>numHashes\<close> is
  \<open>0 / n * ln 2\<close>, which is 0 or NaN; in both cases the loops over \<open>i < numHashes\<close> make no
  step, so the model stores 0.
\<close>

record BloomFilter =
  bf_size :: nat
  bf_numHashes :: nat
  bf_bits :: "8 word list"
  bf_elementsAdded :: nat

definition BloomFilter_new :: "'v platform \<Rightarrow> nat \<Rightarrow> BloomFilter" where
  "BloomFilter_new P expectedElements =
     (let m = bloomSize P expectedElements;
          k = (if m = 0 then 0 else bloomHashes P m expectedElements)
      in \<lparr>bf_size = m, bf_numHashes = k,
          bf_bits = replicate ((m + 7) div 8) 0, bf_elementsAdded = 0\<rparr>)"

text \<open>\<open>x % size\<close> for \<open>x \<ge> 0\<close>: NaN (\<open>None\<close>) when \<open>size\<close> is 0.\<close>

definition jsMod :: "nat \<Rightarrow> nat \<Rightarrow> nat option" where
  "jsMod x m = (if m = 0 then None else Some (x mod m))"

text \<open>\<open>hash = ((hash << 5) - hash + key.charCodeAt(i)) | 0\<close> on 32-bit integers.\<close>

definition hash1_step :: "32 word \<Rightarrow> char \<Rightarrow> 32 word" where
  "hash1_step h c = push_bit 5 h - h + of_nat (of_char c)"

definition hash1 :: "BloomFilter \<Rightarrow> string \<Rightarrow> nat option" where
  "hash1 bf key = jsMod (nat \<bar>sint (foldl hash1_step 0 key)\<bar>) (bf_size bf)"

text \<open>
  \<open>hash ^= c\<close> converts the number to a 32-bit integer; the following \<open>+=\<close> adds the five
  shifted 32-bit integers as numbers, without wrapping.
\<close>

definition hash2_step :: "int \<Rightarrow> char \<Rightarrow> int" where
  "hash2_step h c =
     (let w = (word_of_int h :: 32 word) XOR of_nat (of_char c)
      in sint w + (sint (push_bit 1 w) + sint (push_bit 4 w) + sint (push_bit 7 w)
                   + sint (push_bit 8 w) + sint (push_bit 24 w)))"

definition hash2 :: "BloomFilter \<Rightarrow> string \<Rightarrow> nat option" where
  "hash2 bf key = jsMod (nat \<bar>foldl hash2_step 2166136261 key\<bar>) (bf_size bf)"

definition getHashes :: "BloomFilter \<Rightarrow> string \<Rightarrow> nat option list" where
  "getHashes bf key =
     map (\<lambda>i. case (hash1 bf key, hash2 bf key) of
                 (Some h1, Some h2) \<Rightarrow> jsMod (h1 + i * h2) (bf_size bf)
               | _ \<Rightarrow> None)
         [0..<bf_numHashes bf]"

text \<open>A write to a typed array outside its length, or at index NaN, is ignored.\<close>

fun setBit :: "8 word list \<Rightarrow> nat option \<Rightarrow> 8 word list" where
  "setBit bits None = bits"
| "setBit bits (Some index) =
     (let byteIndex = index div 8; bitIndex = index mod 8
      in if byteIndex < length bits
         then bits[byteIndex := (bits ! byteIndex) OR push_bit bitIndex 1]
         else bits)"

text \<open>A read outside the array gives \<open>undefined\<close>, and \<open>undefined & x\<close> is 0.\<close>

fun getBit :: "8 word list \<Rightarrow> nat option \<Rightarrow> bool" where
  "getBit bits None = False"
| "getBit bits (Some index) =
     (let byteIndex = index div 8; bitIndex = index mod 8
      in byteIndex < length bits \<and> (bits ! byteIndex) AND push_bit bitIndex 1 \<noteq> 0)"

definition BloomFilter_add :: "BloomFilter \<Rightarrow> string \<Rightarrow> BloomFilter" where
  "BloomFilter_add bf key =
     bf\<lparr>bf_bits := foldl setBit (bf_bits bf) (getHashes bf key),
        bf_elementsAdded := bf_elementsAdded bf + 1\<rparr>"

text \<open>The loop of \<open>contains\<close> with its early exit; the result is the field \<open>mightExist\<close>.\<close>

fun allBitsSet :: "8 word list \<Rightarrow> nat option list \<Rightarrow> bool" where
  "allBitsSet bits [] = True"
| "allBitsSet bits (h # hs) = (if \<not> getBit bits h then False else allBitsSet bits hs)"

definition BloomFilter_contains :: "BloomFilter \<Rightarrow> string \<Rightarrow> bool" where
  "BloomFilter_contains bf key = allBitsSet (bf_bits bf) (getHashes bf key)"

section \<open>SSTable\<close>

record 'v entry =
  e_key :: string
  e_value :: "'v option"
  e_timestamp :: nat

record 'v SSTable =
  sst_id :: string
  sst_level :: nat
  sst_entries :: "'v entry list"
  sst_bloomFilter :: BloomFilter
  sst_sparseIndex :: "(string \<times> nat) list"
  sst_size :: nat
  sst_keyRange :: "string option \<times> string option"

definition buildBloomFilter :: "'v platform \<Rightarrow> 'v entry list \<Rightarrow> BloomFilter" where
  "buildBloomFilter P es = foldl BloomFilter_add (BloomFilter_new P (length es)) (map e_key es)"

definition buildSparseIndex :: "'v entry list \<Rightarrow> nat \<Rightarrow> (string \<times> nat) list" where
  "buildSparseIndex es step =
     map (\<lambda>i. (e_key (es ! i), i)) (filter (\<lambda>i. i mod step = 0) [0..<length es])
     @ (if length es mod step \<noteq> 0
        then (let lastIdx = length es - 1 in [(e_key (es ! lastIdx), lastIdx)])
        else [])"

text \<open>
  \<open>JSON.stringify(entry.value).length\<close>: the text of \<open>null\<close> is \<open>null\<close>; for a value without
  a JSON text the expression throws a TypeError.
\<close>

definition stringifyLength :: "'v platform \<Rightarrow> 'v option \<Rightarrow> error + nat" where
  "stringifyLength P v =
     (case v of
        None \<Rightarrow> Inr 4
      | Some x \<Rightarrow> (case jsonLength P x of None \<Rightarrow> Inl TypeError | Some n \<Rightarrow> Inr n))"

text \<open>The loop of \<open>calculateSize\<close> over the entries, which stops at the first throw.\<close>

fun entriesSize :: "'v platform \<Rightarrow> 'v entry list \<Rightarrow> nat \<Rightarrow> error + nat" where
  "entriesSize P [] totalBytes = Inr totalBytes"
| "entriesSize P (entry # rest) totalBytes =
     (case stringifyLength P (e_value entry) of
        Inl err \<Rightarrow> Inl err
      | Inr n \<Rightarrow> entriesSize P rest (totalBytes + (length (e_key entry) * 2 + n * 2 + 16)))"

definition calculateSize ::
  "'v platform \<Rightarrow> 'v entry list \<Rightarrow> BloomFilter \<Rightarrow> (string \<times> nat) list \<Rightarrow> error + nat" where
  "calculateSize P es bf idx =
     (case entriesSize P es 0 of
        Inl err \<Rightarrow> Inl err
      | Inr totalBytes \<Rightarrow> Inr (totalBytes + length (bf_bits bf) + length idx * 24))"

definition getKeyRange :: "'v entry list \<Rightarrow> string option \<times> string option" where
  "getKeyRange es = (if length es = 0 then (None, None)
                     else (Some (e_key (es ! 0)), Some (e_key (es ! (length es - 1)))))"

text \<open>
  The constructor sorts the entries, builds the filter and the index, and then computes
  the size: it throws when \<open>calculateSize\<close> does, and has no other failure.
\<close>

definition SSTable_new ::
  "'v platform \<Rightarrow> string \<Rightarrow> nat \<Rightarrow> 'v entry list \<Rightarrow> error + 'v SSTable" where
  "SSTable_new P ident lvl input =
     (let es = sort_key e_key input;
          bf = buildBloomFilter P es;
          idx = buildSparseIndex es 10
      in case calculateSize P es bf idx of
           Inl err \<Rightarrow> Inl err
         | Inr totalBytes \<Rightarrow>
             Inr \<lparr>sst_id = ident, sst_level = lvl, sst_entries = es, sst_bloomFilter = bf,
                  sst_sparseIndex = idx, sst_size = totalBytes, sst_keyRange = getKeyRange es\<rparr>)"

record 'v sst_result =
  r_found :: bool
  r_value :: "'v option"
  r_bloomFilterSaved :: bool

function binarySearch :: "'v entry list \<Rightarrow> string \<Rightarrow> int \<Rightarrow> int \<Rightarrow> error + 'v sst_result" where
  "binarySearch es key left right =
     (if left \<le> right then
        (let mid = (left + right) div 2 in
         if mid < 0 \<or> int (length es) \<le> mid then Inl TypeError
         else (let midKey = e_key (es ! nat mid) in
               if midKey = key
               then Inr \<lparr>r_found = True, r_value = e_value (es ! nat mid), r_bloomFilterSaved = False\<rparr>
               else if key < midKey then binarySearch es key left (mid - 1)
               else binarySearch es key (mid + 1) right))
      else Inr \<lparr>r_found = False, r_value = None, r_bloomFilterSaved = False\<rparr>)"
  by pat_completeness auto
termination
  by (relation "measure (\<lambda>(es, key, left, right). nat (right - left + 1))") auto

fun sparseRange :: "(string \<times> nat) list \<Rightarrow> string \<Rightarrow> int \<times> int \<Rightarrow> int \<times> int" where
  "sparseRange (a # b # rest) key whole =
     (if fst a \<le> key \<and> key < fst b then (int (snd a), int (snd b))
      else sparseRange (b # rest) key whole)"
| "sparseRange idx key whole = whole"

definition SSTable_get :: "'v SSTable \<Rightarrow> string \<Rightarrow> error + 'v sst_result" where
  "SSTable_get t key =
     (if \<not> BloomFilter_contains (sst_bloomFilter t) key
      then Inr \<lparr>r_found = False, r_value = None, r_bloomFilterSaved = True\<rparr>
      else (let (searchStart, searchEnd) =
                  sparseRange (sst_sparseIndex t) key (0, int (length (sst_entries t)) - 1)
            in binarySearch (sst_entries t) key searchStart searchEnd))"

definition SSTable_scan :: "'v SSTable \<Rightarrow> string \<Rightarrow> string \<Rightarrow> 'v entry list" where
  "SSTable_scan t startKey endKey =
     (let es = sst_entries t;
          before = takeWhile (\<lambda>e. \<not> startKey \<le> e_key e) es;
          startPos = (if length before < length es then length before else 0)
      in takeWhile (\<lambda>e. \<not> endKey < e_key e) (drop startPos es))"

definition containsKeyInRange :: "'v SSTable \<Rightarrow> string \<Rightarrow> bool" where
  "containsKeyInRange t key =
     (if length (sst_entries t) = 0 then False
      else (case sst_keyRange t of
              (Some mn, Some mx) \<Rightarrow> mn \<le> key \<and> key \<le> mx
            | _ \<Rightarrow> False))"

section \<open>SSTableManager\<close>

text \<open>
  \<open>levels\<close> is a JavaScript \<open>Map\<close>: an association list in insertion order, in which \<open>set\<close>
  replaces the value of a key that is present and appends a key that is not.
\<close>

record 'v SSTableManager =
  mgr_levels :: "(nat \<times> 'v SSTable list) list"
  mgr_nextId :: nat

definition SSTableManager_new :: "'v SSTableManager" where
  "SSTableManager_new = \<lparr>mgr_levels = [], mgr_nextId = 1\<rparr>"

fun Map_set :: "'k \<Rightarrow> 'a \<Rightarrow> ('k \<times> 'a) list \<Rightarrow> ('k \<times> 'a) list" where
  "Map_set k v [] = [(k, v)]"
| "Map_set k v (p # m) = (if fst p = k then (k, v) # m else p # Map_set k v m)"

definition getLevel :: "'v SSTableManager \<Rightarrow> nat \<Rightarrow> 'v SSTable list" where
  "getLevel m level = (case map_of (mgr_levels m) level of None \<Rightarrow> [] | Some ts \<Rightarrow> ts)"

definition addSSTable :: "'v SSTableManager \<Rightarrow> nat \<Rightarrow> 'v SSTable \<Rightarrow> 'v SSTableManager" where
  "addSSTable m level sstable =
     (let levels = (if map_of (mgr_levels m) level = None
                    then Map_set level [] (mgr_levels m) else mgr_levels m)
      in m\<lparr>mgr_levels :=
             Map_set level ((case map_of levels level of None \<Rightarrow> [] | Some ts \<Rightarrow> ts) @ [sstable])
               levels\<rparr>)"

text \<open>The decimal digits of a number, for the template strings of the sources.\<close>

fun decimal :: "nat \<Rightarrow> string" where
  "decimal n = (if n < 10 then [''0123456789'' ! n]
                else decimal (n div 10) @ [''0123456789'' ! (n mod 10)])"

text \<open>
  \<open>nextId\<close> is incremented before the constructor is called: when the constructor throws,
  the manager keeps the new \<open>nextId\<close> and gets no table.
\<close>

definition createSSTable ::
  "'v platform \<Rightarrow> 'v SSTableManager \<Rightarrow> nat \<Rightarrow> 'v entry list
   \<Rightarrow> (error + 'v SSTable) \<times> 'v SSTableManager" where
  "createSSTable P m level entries =
     (let ident = ''sstable-'' @ decimal (mgr_nextId m);
          m1 = m\<lparr>mgr_nextId := mgr_nextId m + 1\<rparr>
      in case SSTable_new P ident level entries of
           Inl err \<Rightarrow> (Inl err, m1)
         | Inr sstable \<Rightarrow> (Inr sstable, addSSTable m1 level sstable))"

definition clearLevel :: "'v SSTableManager \<Rightarrow> nat \<Rightarrow> 'v SSTableManager" where
  "clearLevel m level = m\<lparr>mgr_levels := Map_set level [] (mgr_levels m)\<rparr>"

definition SSTableManager_clear :: "'v SSTableManager \<Rightarrow> 'v SSTableManager" where
  "SSTableManager_clear m = m\<lparr>mgr_levels := [], mgr_nextId := 1\<rparr>"

record 'v search_step =
  st_level :: nat
  st_sstableId :: string
  st_found :: bool
  st_value :: "'v option"
  st_bloomFilterSaved :: bool

record 'v search_result =
  s_found :: bool
  s_value :: "'v option"
  s_searchPath :: "'v search_step list"
  s_sstablesChecked :: nat

text \<open>
  The inner loop of \<open>search\<close> over the tables of one level, in the order of the array.
  The result is the hit, if any, and the search path so far.
\<close>

fun searchTables ::
  "nat \<Rightarrow> 'v SSTable list \<Rightarrow> string \<Rightarrow> 'v search_step list
   \<Rightarrow> error + ('v sst_result option \<times> 'v search_step list)" where
  "searchTables level [] key path = Inr (None, path)"
| "searchTables level (sstable # rest) key path =
     (if level > 0 \<and> \<not> containsKeyInRange sstable key
      then searchTables level rest key path
      else (case SSTable_get sstable key of
              Inl e \<Rightarrow> Inl e
            | Inr result \<Rightarrow>
                (let path' = path @ [\<lparr>st_level = level, st_sstableId = sst_id sstable,
                                       st_found = r_found result, st_value = r_value result,
                                       st_bloomFilterSaved = r_bloomFilterSaved result\<rparr>]
                 in if r_found result then Inr (Some result, path')
                    else searchTables level rest key path')))"

fun searchLevels ::
  "'v SSTableManager \<Rightarrow> nat list \<Rightarrow> string \<Rightarrow> 'v search_step list
   \<Rightarrow> error + ('v sst_result option \<times> 'v search_step list)" where
  "searchLevels m [] key path = Inr (None, path)"
| "searchLevels m (level # rest) key path =
     (case searchTables level (getLevel m level) key path of
        Inl e \<Rightarrow> Inl e
      | Inr (Some result, path') \<Rightarrow> Inr (Some result, path')
      | Inr (None, path') \<Rightarrow> searchLevels m rest key path')"

definition SSTableManager_search :: "'v SSTableManager \<Rightarrow> string \<Rightarrow> error + 'v search_result" where
  "SSTableManager_search m key =
     (let sortedLevels = sort (map fst (mgr_levels m))
      in case searchLevels m sortedLevels key [] of
           Inl e \<Rightarrow> Inl e
         | Inr (Some result, path) \<Rightarrow>
             Inr \<lparr>s_found = True, s_value = r_value result, s_searchPath = path,
                  s_sstablesChecked = length path\<rparr>
         | Inr (None, path) \<Rightarrow>
             Inr \<lparr>s_found = False, s_value = None, s_searchPath = path,
                  s_sstablesChecked = length path\<rparr>)"

section \<open>MinHeap\<close>

record 'v heap_element =
  h_key :: string
  h_value :: "'v option"
  h_timestamp :: nat
  h_iteratorIndex :: nat

definition swap :: "'a list \<Rightarrow> nat \<Rightarrow> nat \<Rightarrow> 'a list" where
  "swap xs i j = xs[i := xs ! j, j := xs ! i]"

function bubbleUp :: "'v heap_element list \<Rightarrow> nat \<Rightarrow> 'v heap_element list" where
  "bubbleUp heap index =
     (if index > 0 then
        (let parentIndex = (index - 1) div 2 in
         if h_key (heap ! index) \<ge> h_key (heap ! parentIndex) then heap
         else bubbleUp (swap heap index parentIndex) parentIndex)
      else heap)"
  by pat_completeness auto
termination
  by (relation "measure (\<lambda>(heap, index). index)") auto

declare bubbleUp.simps [simp del]

definition smallestOf :: "'v heap_element list \<Rightarrow> nat \<Rightarrow> nat" where
  "smallestOf heap index =
     (let leftChild = 2 * index + 1; rightChild = 2 * index + 2;
          smallest = index;
          smallest = (if leftChild < length heap \<and> h_key (heap ! leftChild) < h_key (heap ! smallest)
                      then leftChild else smallest);
          smallest = (if rightChild < length heap \<and> h_key (heap ! rightChild) < h_key (heap ! smallest)
                      then rightChild else smallest)
      in smallest)"

lemma smallestOf_cases:
  "smallestOf heap index = index \<or>
   (index < smallestOf heap index \<and> smallestOf heap index < length heap)"
  by (auto simp add: smallestOf_def Let_def)

lemma length_swap [simp]: "length (swap xs i j) = length xs"
  by (simp add: swap_def)

function bubbleDown :: "'v heap_element list \<Rightarrow> nat \<Rightarrow> 'v heap_element list" where
  "bubbleDown heap index =
     (let smallest = smallestOf heap index in
      if smallest = index then heap
      else bubbleDown (swap heap index smallest) smallest)"
  by pat_completeness auto
termination
proof (relation "measure (\<lambda>(heap, index). length heap - index)")
  fix heap :: "'v heap_element list" and index smallest
  assume "smallest = smallestOf heap index" "smallest \<noteq> index"
  with smallestOf_cases [of heap index]
  show "((swap heap index smallest, smallest), (heap, index))
          \<in> measure (\<lambda>(heap, index). length heap - index)"
    by auto
qed simp

declare bubbleDown.simps [simp del]

definition MinHeap_insert :: "'v heap_element list \<Rightarrow> 'v heap_element \<Rightarrow> 'v heap_element list" where
  "MinHeap_insert heap element = bubbleUp (heap @ [element]) (length (heap @ [element]) - 1)"

definition extractMin ::
  "'v heap_element list \<Rightarrow> 'v heap_element option \<times> 'v heap_element list" where
  "extractMin heap =
     (if length heap = 0 then (None, heap)
      else if length heap = 1 then (Some (last heap), butlast heap)
      else (let minimum = heap ! 0; popped = last heap
            in (Some minimum, bubbleDown ((butlast heap)[0 := popped]) 0)))"

section \<open>Compaction\<close>

record 'v iterator =
  it_sstableId :: string
  it_entries :: "'v entry list"
  it_currentIndex :: nat

text \<open>
  The first loop of \<open>kWayMerge\<close>. An iterator is pushed only for a table with entries,
  while the heap element records the position \<open>i\<close> of the table among the inputs.
\<close>

fun mergeInit ::
  "'v SSTable list \<Rightarrow> nat \<Rightarrow> 'v iterator list \<Rightarrow> 'v heap_element list
   \<Rightarrow> 'v iterator list \<times> 'v heap_element list" where
  "mergeInit [] i iterators heap = (iterators, heap)"
| "mergeInit (sstable # rest) i iterators heap =
     (let entries = sst_entries sstable in
      if length entries > 0
      then mergeInit rest (i + 1)
             (iterators @ [\<lparr>it_sstableId = sst_id sstable, it_entries = entries, it_currentIndex = 0\<rparr>])
             (MinHeap_insert heap
                \<lparr>h_key = e_key (entries ! 0), h_value = e_value (entries ! 0),
                 h_timestamp = e_timestamp (entries ! 0), h_iteratorIndex = i\<rparr>)
      else mergeInit rest (i + 1) iterators heap)"

lemma length_bubbleUp [simp]: "length (bubbleUp heap index) = length heap"
proof (induction heap index rule: bubbleUp.induct)
  case (1 heap index)
  then show ?case by (subst bubbleUp.simps) (simp add: Let_def)
qed

lemma length_bubbleDown [simp]: "length (bubbleDown heap index) = length heap"
proof (induction heap index rule: bubbleDown.induct)
  case (1 heap index)
  then show ?case by (subst bubbleDown.simps) (simp add: Let_def)
qed

lemma length_MinHeap_insert [simp]: "length (MinHeap_insert heap element) = length heap + 1"
  by (simp add: MinHeap_insert_def)

lemma length_snd_extractMin: "length (snd (extractMin heap)) = length heap - 1"
  by (simp add: extractMin_def Let_def)

lemma length_extractMin:
  "extractMin heap = (r, heap') \<Longrightarrow> length heap' = length heap - 1"
  using length_snd_extractMin [of heap] by simp

definition remaining :: "'v iterator list \<Rightarrow> nat" where
  "remaining iterators = sum_list (map (\<lambda>it. length (it_entries it) - it_currentIndex it) iterators)"

lemma remaining_pos:
  "i < length its \<Longrightarrow> it_currentIndex (its ! i) < length (it_entries (its ! i))
   \<Longrightarrow> 0 < remaining its"
proof (induction its arbitrary: i)
  case Nil
  then show ?case by simp
next
  case (Cons a its)
  then show ?case by (cases i) (auto simp add: remaining_def)
qed

lemma remaining_update:
  assumes "i < length its"
  shows "remaining (its[i := (its ! i)\<lparr>it_currentIndex := it_currentIndex (its ! i) + 1\<rparr>])
           = remaining its
             - (if it_currentIndex (its ! i) < length (it_entries (its ! i)) then 1 else 0)"
  using assms
proof (induction its arbitrary: i)
  case Nil
  then show ?case by simp
next
  case (Cons a its)
  show ?case
  proof (cases i)
    case 0
    then show ?thesis by (auto simp add: remaining_def)
  next
    case (Suc j)
    with Cons.prems have j: "j < length its" by simp
    from Cons.IH [OF j] Suc remaining_pos [OF j] show ?thesis
      by (auto simp add: remaining_def)
  qed
qed

text \<open>
  The main loop of \<open>kWayMerge\<close>. \<open>iterators[minimum.iteratorIndex]\<close> is \<open>undefined\<close> when the
  index is beyond the array; the increment of its \<open>currentIndex\<close> then throws a TypeError.
\<close>

function mergeLoop ::
  "'v heap_element list \<Rightarrow> 'v iterator list \<Rightarrow> 'v entry list \<Rightarrow> string option \<Rightarrow> nat
   \<Rightarrow> error + ('v entry list \<times> nat)" where
  "mergeLoop heap iterators mergedEntries lastKey duplicatesRemoved =
     (if length heap > 0 then
        (case extractMin heap of
           (None, heap1) \<Rightarrow> Inl TypeError
         | (Some minimum, heap1) \<Rightarrow>
             (let mergedEntries1 =
                    (if Some (h_key minimum) \<noteq> lastKey \<and> h_value minimum \<noteq> None
                     then mergedEntries @ [\<lparr>e_key = h_key minimum, e_value = h_value minimum,
                                             e_timestamp = h_timestamp minimum\<rparr>]
                     else mergedEntries);
                  duplicatesRemoved1 =
                    (if Some (h_key minimum) \<noteq> lastKey then duplicatesRemoved
                     else duplicatesRemoved + 1);
                  lastKey1 = (if Some (h_key minimum) \<noteq> lastKey then Some (h_key minimum) else lastKey)
              in if length iterators \<le> h_iteratorIndex minimum then Inl TypeError
                 else
                   (let iterator = (iterators ! h_iteratorIndex minimum)
                          \<lparr>it_currentIndex := it_currentIndex (iterators ! h_iteratorIndex minimum) + 1\<rparr>;
                        iterators1 = iterators[h_iteratorIndex minimum := iterator]
                    in if it_currentIndex iterator < length (it_entries iterator)
                       then (let nextEntry = it_entries iterator ! it_currentIndex iterator
                             in mergeLoop
                                  (MinHeap_insert heap1
                                     \<lparr>h_key = e_key nextEntry, h_value = e_value nextEntry,
                                      h_timestamp = e_timestamp nextEntry,
                                      h_iteratorIndex = h_iteratorIndex minimum\<rparr>)
                                  iterators1 mergedEntries1 lastKey1 duplicatesRemoved1)
                       else mergeLoop heap1 iterators1 mergedEntries1 lastKey1 duplicatesRemoved1)))
      else Inr (mergedEntries, duplicatesRemoved))"
  by pat_completeness auto
termination
proof (relation "measure (\<lambda>(heap, iterators, m, l, d). length heap + remaining iterators)",
    goal_cases)
  case 1
  show ?case by simp
next
  case (2 heap iterators mergedEntries lastKey duplicatesRemoved x y x2 xa xb xc xd xe xf)
  from 2(2) have len: "length y = length heap - 1" by (metis length_extractMin)
  from 2(7) have i: "h_iteratorIndex x2 < length iterators" by simp
  have "0 < remaining iterators"
    using remaining_pos [OF i] 2(8,10) by simp
  moreover have "remaining xe = remaining iterators - 1"
    using remaining_update [OF i] 2(8,9,10) by simp
  ultimately show ?case using len 2(1) by simp
next
  case (3 heap iterators mergedEntries lastKey duplicatesRemoved x y x2 xa xb xc xd xe)
  from 3(2) have len: "length y = length heap - 1" by (metis length_extractMin)
  from 3(7) have i: "h_iteratorIndex x2 < length iterators" by simp
  have "remaining xe \<le> remaining iterators"
    using remaining_update [OF i] 3(8,9) by simp
  then show ?case using len 3(1) by (cases heap) simp_all
qed

declare mergeLoop.simps [simp del]

record merge_stats =
  ms_inputSSTables :: nat
  ms_inputEntries :: nat
  ms_outputEntries :: nat
  ms_duplicatesRemoved :: nat

definition kWayMerge :: "'v SSTable list \<Rightarrow> error + ('v entry list \<times> merge_stats)" where
  "kWayMerge sstables =
     (let (iterators, heap) = mergeInit sstables 0 [] []
      in case mergeLoop heap iterators [] None 0 of
           Inl e \<Rightarrow> Inl e
         | Inr (mergedEntries, duplicatesRemoved) \<Rightarrow>
             Inr (mergedEntries,
                  \<lparr>ms_inputSSTables = length sstables,
                   ms_inputEntries = sum_list (map (\<lambda>s. length (sst_entries s)) sstables),
                   ms_outputEntries = length mergedEntries,
                   ms_duplicatesRemoved = duplicatesRemoved\<rparr>))"

record compaction_record =
  c_id :: nat
  c_sourceLevel :: nat
  c_targetLevel :: nat
  c_inputSSTables :: nat
  c_outputSSTables :: nat
  c_inputBytes :: nat
  c_outputBytes :: nat
  c_duplicatesRemoved :: nat
  c_mergeStats :: merge_stats

datatype compaction_result = Failure string | Success compaction_record

record Compaction =
  cmp_compactionHistory :: "compaction_record list"
  cmp_totalCompactions :: nat
  cmp_totalBytesCompacted :: nat

definition Compaction_new :: Compaction where
  "Compaction_new = \<lparr>cmp_compactionHistory = [], cmp_totalCompactions = 0,
                      cmp_totalBytesCompacted = 0\<rparr>"

text \<open>\<open>!range.min\<close> holds for \<open>null\<close> and for the empty string.\<close>

definition falsy :: "string option \<Rightarrow> bool" where
  "falsy s = (s = None \<or> s = Some [])"

definition rangesOverlap ::
  "string option \<times> string option \<Rightarrow> string option \<times> string option \<Rightarrow> bool" where
  "rangesOverlap range1 range2 =
     (if falsy (fst range1) \<or> falsy (snd range1) \<or> falsy (fst range2) \<or> falsy (snd range2)
      then False
      else \<not> (the (snd range1) < the (fst range2) \<or> the (snd range2) < the (fst range1)))"

definition findOverlappingSSTables :: "'v SSTable list \<Rightarrow> 'v SSTable list \<Rightarrow> 'v SSTable list" where
  "findOverlappingSSTables sourceSSTables targetSSTables =
     filter (\<lambda>target. list_ex (\<lambda>source. rangesOverlap (sst_keyRange source) (sst_keyRange target))
                         sourceSSTables)
            targetSSTables"

definition compactLevel ::
  "'v platform \<Rightarrow> nat \<Rightarrow> nat \<Rightarrow> 'v SSTableManager \<Rightarrow> Compaction
   \<Rightarrow> (error + compaction_result) \<times> 'v SSTableManager \<times> Compaction" where
  "compactLevel P sourceLevel targetLevel mgr cmp =
     (let sourceSSTables = getLevel mgr sourceLevel in
      if length sourceSSTables = 0
      then (Inr (Failure (''No SSTables at level '' @ decimal sourceLevel)), mgr, cmp)
      else
        (let targetSSTables = getLevel mgr targetLevel;
             overlappingSSTables = findOverlappingSSTables sourceSSTables targetSSTables;
             sstablesToMerge = sourceSSTables @ overlappingSSTables
         in case kWayMerge sstablesToMerge of
              Inl e \<Rightarrow> (Inl e, mgr, cmp)
            | Inr (mergedEntries, mergeStats) \<Rightarrow>
                (let inputBytes = sum_list (map sst_size sstablesToMerge);
                     outputBytes = length mergedEntries * 100;
                     mgr1 = clearLevel mgr sourceLevel;
                     remainingTarget = filter (\<lambda>s. s \<notin> set overlappingSSTables) targetSSTables;
                     mgr2 = clearLevel mgr1 targetLevel;
                     mgr3 = foldl (\<lambda>m sstable. addSSTable m targetLevel sstable) mgr2 remainingTarget;
                     (created, mgr4) = createSSTable P mgr3 targetLevel mergedEntries;
                     compactionRecord =
                       \<lparr>c_id = cmp_totalCompactions cmp, c_sourceLevel = sourceLevel,
                        c_targetLevel = targetLevel, c_inputSSTables = length sstablesToMerge,
                        c_outputSSTables = 1, c_inputBytes = inputBytes,
                        c_outputBytes = outputBytes,
                        c_duplicatesRemoved = ms_duplicatesRemoved mergeStats,
                        c_mergeStats = mergeStats\<rparr>
                 in case created of
                      Inl e \<Rightarrow> (Inl e, mgr4, cmp)
                    | Inr newSSTable \<Rightarrow>
                        (Inr (Success compactionRecord), mgr4,
                         cmp\<lparr>cmp_compactionHistory := cmp_compactionHistory cmp @ [compactionRecord],
                             cmp_totalCompactions := cmp_totalCompactions cmp + 1,
                             cmp_totalBytesCompacted := cmp_totalBytesCompacted cmp + inputBytes\<rparr>))))"

text \<open>\<open>thresholds[level] || 1000\<close> with \<open>thresholds = {0: 4, 1: 10, 2: 100}\<close>.\<close>

definition threshold :: "nat \<Rightarrow> nat" where
  "threshold level = (if level = 0 then 4 else if level = 1 then 10
                      else if level = 2 then 100 else 1000)"

definition shouldCompact :: "'v SSTableManager \<Rightarrow> nat \<Rightarrow> bool" where
  "shouldCompact mgr level = (length (getLevel mgr level) \<ge> threshold level)"

fun autoCompactionLoop ::
  "'v platform \<Rightarrow> nat list \<Rightarrow> 'v SSTableManager \<Rightarrow> Compaction \<Rightarrow> compaction_record list
   \<Rightarrow> (error + compaction_record list) \<times> 'v SSTableManager \<times> Compaction" where
  "autoCompactionLoop P [] mgr cmp results = (Inr results, mgr, cmp)"
| "autoCompactionLoop P (level # rest) mgr cmp results =
     (if shouldCompact mgr level
      then (case compactLevel P level (level + 1) mgr cmp of
              (Inl e, mgr', cmp') \<Rightarrow> (Inl e, mgr', cmp')
            | (Inr (Success r), mgr', cmp') \<Rightarrow> autoCompactionLoop P rest mgr' cmp' (results @ [r])
            | (Inr (Failure msg), mgr', cmp') \<Rightarrow> autoCompactionLoop P rest mgr' cmp' results)
      else autoCompactionLoop P rest mgr cmp results)"

definition runAutoCompaction ::
  "'v platform \<Rightarrow> 'v SSTableManager \<Rightarrow> Compaction
   \<Rightarrow> (error + compaction_record list) \<times> 'v SSTableManager \<times> Compaction" where
  "runAutoCompaction P mgr cmp = autoCompactionLoop P [0, 1, 2] mgr cmp []"

definition clearHistory :: "Compaction \<Rightarrow> Compaction" where
  "clearHistory cmp = cmp\<lparr>cmp_compactionHistory := [], cmp_totalCompactions := 0,
                          cmp_totalBytesCompacted := 0\<rparr>"

section \<open>SkipList\<close>

text \<open>
  The list keeps its nodes in the order of the level-0 chain, each with its level (the
  length of its \<open>forward\<close> array minus one). \<open>forward[i]\<close> of a node is the next node whose
  level is at least \<open>i\<close>; the header, of level \<open>maxLevel\<close>, stands before the first node. A
  position \<open>current\<close> of a traversal is represented by the nodes that follow it.
\<close>

record 'v node =
  n_key :: string
  n_value :: "'v option"
  n_level :: nat
  n_timestamp :: nat

record 'v SkipList =
  sl_maxLevel :: nat
  sl_probability :: real
  sl_level :: nat
  sl_nodes :: "'v node list"
  sl_size :: nat

definition SkipList_new :: "nat \<Rightarrow> real \<Rightarrow> 'v SkipList" where
  "SkipList_new maxLevel probability =
     \<lparr>sl_maxLevel = maxLevel, sl_probability = probability, sl_level = 0, sl_nodes = [],
      sl_size = 0\<rparr>"

text \<open>
  What one call of \<open>insert\<close> reads from its environment: the value of \<open>Date.now()\<close> and the
  successive values of \<open>Math.random()\<close>.
\<close>

record env =
  now :: nat
  random :: "nat \<Rightarrow> real"

function randomLevelLoop :: "nat \<Rightarrow> real \<Rightarrow> (nat \<Rightarrow> real) \<Rightarrow> nat \<Rightarrow> nat \<Rightarrow> nat" where
  "randomLevelLoop maxLevel probability samples i level =
     (if samples i < probability \<and> level < maxLevel
      then randomLevelLoop maxLevel probability samples (i + 1) (level + 1)
      else level)"
  by pat_completeness auto
termination
  by (relation "measure (\<lambda>(maxLevel, p, samples, i, level). maxLevel - level)") auto

declare randomLevelLoop.simps [simp del]

definition randomLevel :: "'v SkipList \<Rightarrow> (nat \<Rightarrow> real) \<Rightarrow> nat" where
  "randomLevel sl samples = randomLevelLoop (sl_maxLevel sl) (sl_probability sl) samples 0 0"

text \<open>
  \<open>while (current.forward[i] && current.forward[i].key < key) current = current.forward[i]\<close>
\<close>

function advance :: "nat \<Rightarrow> string \<Rightarrow> 'v node list \<Rightarrow> 'v node list" where
  "advance i key following =
     (case dropWhile (\<lambda>n. n_level n < i) following of
        [] \<Rightarrow> following
      | forward # beyond \<Rightarrow> if n_key forward < key then advance i key beyond else following)"
  by pat_completeness auto
termination
proof (relation "measure (\<lambda>(i, key, following). length following)", goal_cases)
  case 1
  show ?case by simp
next
  case (2 i key following forward beyond)
  have "length (dropWhile (\<lambda>n. n_level n < i) following) \<le> length following"
    by (rule length_dropWhile_le)
  moreover have "length (dropWhile (\<lambda>n. n_level n < i) following) = Suc (length beyond)"
    by (simp add: 2(1))
  ultimately show ?case by simp
qed

declare advance.simps [simp del]

text \<open>\<open>for (let i = this.level; i >= 0; i--)\<close> around the loop above.\<close>

fun descend :: "nat \<Rightarrow> string \<Rightarrow> 'v node list \<Rightarrow> 'v node list" where
  "descend 0 key following = advance 0 key following"
| "descend (Suc i) key following = descend i key (advance (Suc i) key following)"

record 'v lookup =
  l_found :: bool
  l_value :: "'v option"

definition SkipList_search :: "'v SkipList \<Rightarrow> string \<Rightarrow> 'v lookup" where
  "SkipList_search sl key =
     (case descend (sl_level sl) key (sl_nodes sl) of
        [] \<Rightarrow> \<lparr>l_found = False, l_value = None\<rparr>
      | current # beyond \<Rightarrow>
          if n_key current = key then \<lparr>l_found = True, l_value = n_value current\<rparr>
          else \<lparr>l_found = False, l_value = None\<rparr>)"

record insert_result =
  ir_operation :: string
  ir_key :: string
  ir_size :: nat

definition SkipList_insert ::
  "env \<Rightarrow> 'v SkipList \<Rightarrow> string \<Rightarrow> 'v option \<Rightarrow> insert_result \<times> 'v SkipList" where
  "SkipList_insert e sl key val =
     (let following = descend (sl_level sl) key (sl_nodes sl);
          before = take (length (sl_nodes sl) - length following) (sl_nodes sl)
      in case following of
           current # beyond \<Rightarrow>
             if n_key current = key
             then (\<lparr>ir_operation = ''UPDATE'', ir_key = key, ir_size = sl_size sl\<rparr>,
                   sl\<lparr>sl_nodes := before @ current\<lparr>n_value := val, n_timestamp := now e\<rparr> # beyond\<rparr>)
             else (let newLevel = randomLevel sl (random e) in
                   (\<lparr>ir_operation = ''INSERT'', ir_key = key, ir_size = sl_size sl + 1\<rparr>,
                    sl\<lparr>sl_level := max (sl_level sl) newLevel,
                       sl_nodes := before @ \<lparr>n_key = key, n_value = val, n_level = newLevel,
                                              n_timestamp = now e\<rparr> # following,
                       sl_size := sl_size sl + 1\<rparr>))
         | [] \<Rightarrow>
             (let newLevel = randomLevel sl (random e) in
              (\<lparr>ir_operation = ''INSERT'', ir_key = key, ir_size = sl_size sl + 1\<rparr>,
               sl\<lparr>sl_level := max (sl_level sl) newLevel,
                  sl_nodes := before @ \<lparr>n_key = key, n_value = val, n_level = newLevel,
                                         n_timestamp = now e\<rparr> # following,
                  sl_size := sl_size sl + 1\<rparr>)))"

definition getAllEntries :: "'v SkipList \<Rightarrow> 'v entry list" where
  "getAllEntries sl =
     map (\<lambda>n. \<lparr>e_key = n_key n, e_value = n_value n, e_timestamp = n_timestamp n\<rparr>) (sl_nodes sl)"

definition SkipList_clear :: "'v SkipList \<Rightarrow> 'v SkipList" where
  "SkipList_clear sl = sl\<lparr>sl_nodes := [], sl_level := 0, sl_size := 0\<rparr>"

definition isEmpty :: "'v SkipList \<Rightarrow> bool" where
  "isEmpty sl = (sl_size sl = 0)"

section \<open>LSMTree\<close>

record lsm_stats =
  totalWrites :: nat
  totalReads :: nat
  totalDeletes :: nat
  memtableFlushes :: nat
  totalCompactions :: nat
  bloomFilterHits :: nat
  bloomFilterMisses :: nat

record 'v LSMTree =
  memtable :: "'v SkipList"
  memtableThreshold :: nat
  sstableManager :: "'v SSTableManager"
  compaction :: Compaction
  stats :: lsm_stats

definition stats_new :: lsm_stats where
  "stats_new = \<lparr>totalWrites = 0, totalReads = 0, totalDeletes = 0, memtableFlushes = 0,
                 totalCompactions = 0, bloomFilterHits = 0, bloomFilterMisses = 0\<rparr>"

definition LSMTree_new :: "nat \<Rightarrow> 'v LSMTree" where
  "LSMTree_new threshold' =
     \<lparr>memtable = SkipList_new 16 (1 / 2), memtableThreshold = threshold',
      sstableManager = SSTableManager_new, compaction = Compaction_new, stats = stats_new\<rparr>"

record flush_result =
  fr_entriesFlushed :: nat
  fr_sstableId :: string
  fr_level :: nat

text \<open>
  An exception leaves an operation with the engine as it is at the point of the throw:
  every operation returns the pair of its outcome and the state. When \<open>createSSTable\<close>
  throws, the memtable has not been cleared and the flush has not been counted.
\<close>

definition flushMemtable ::
  "'v platform \<Rightarrow> 'v LSMTree \<Rightarrow> (error + flush_result option) \<times> 'v LSMTree" where
  "flushMemtable P s =
     (if isEmpty (memtable s) then (Inr None, s)
      else
        (let entries = getAllEntries (memtable s);
             (created, mgr) = createSSTable P (sstableManager s) 0 entries;
             oldSize = sl_size (memtable s)
         in case created of
              Inl err \<Rightarrow> (Inl err, s\<lparr>sstableManager := mgr\<rparr>)
            | Inr sstable \<Rightarrow>
                (Inr (Some \<lparr>fr_entriesFlushed = oldSize, fr_sstableId = sst_id sstable, fr_level = 0\<rparr>),
                 s\<lparr>sstableManager := mgr, memtable := SkipList_clear (memtable s),
                   stats := (stats s)\<lparr>memtableFlushes := memtableFlushes (stats s) + 1\<rparr>\<rparr>)))"

record put_result =
  p_operation :: string
  p_key :: string
  p_memtableResult :: insert_result
  p_flushed :: bool
  p_flushResult :: "flush_result option"
  p_compacted :: bool
  p_compactionResults :: "compaction_record list"

definition LSMTree_put ::
  "'v platform \<Rightarrow> env \<Rightarrow> 'v LSMTree \<Rightarrow> string \<Rightarrow> 'v option \<Rightarrow> (error + put_result) \<times> 'v LSMTree" where
  "LSMTree_put P e s key val =
     (let (insertResult, mt) = SkipList_insert e (memtable s) key val;
          s1 = s\<lparr>memtable := mt, stats := (stats s)\<lparr>totalWrites := totalWrites (stats s) + 1\<rparr>\<rparr>;
          (flushed, s2) = (if sl_size (memtable s1) \<ge> memtableThreshold s1
                           then flushMemtable P s1 else (Inr None, s1))
      in case flushed of
           Inl err \<Rightarrow> (Inl err, s2)
         | Inr flushResult \<Rightarrow>
             (let (outcome, mgr, cmp) = runAutoCompaction P (sstableManager s2) (compaction s2);
                  s3 = s2\<lparr>sstableManager := mgr, compaction := cmp\<rparr>
              in case outcome of
                   Inl err \<Rightarrow> (Inl err, s3)
                 | Inr compactionResults \<Rightarrow>
                     (Inr \<lparr>p_operation = ''PUT'', p_key = key, p_memtableResult = insertResult,
                           p_flushed = (flushResult \<noteq> None), p_flushResult = flushResult,
                           p_compacted = (length compactionResults > 0),
                           p_compactionResults = compactionResults\<rparr>,
                      if length compactionResults > 0
                      then s3\<lparr>stats := (stats s3)\<lparr>totalCompactions :=
                                           totalCompactions (stats s3) + length compactionResults\<rparr>\<rparr>
                      else s3)))"

record lsm_step =
  ls_location :: string
  ls_found :: bool
  ls_bloomFilterSaved :: bool

record 'v get_result =
  g_found :: bool
  g_value :: "'v option"
  g_location :: string
  g_searchPath :: "lsm_step list"
  g_sstablesChecked :: nat

definition trackBloom :: "lsm_stats \<Rightarrow> 'v search_step \<Rightarrow> lsm_stats" where
  "trackBloom st step =
     (if st_bloomFilterSaved step then st\<lparr>bloomFilterHits := bloomFilterHits st + 1\<rparr>
      else if \<not> st_bloomFilterSaved step \<and> \<not> st_found step
      then st\<lparr>bloomFilterMisses := bloomFilterMisses st + 1\<rparr>
      else st)"

definition LSMTree_get ::
  "'v LSMTree \<Rightarrow> string \<Rightarrow> (error + 'v get_result) \<times> 'v LSMTree" where
  "LSMTree_get s key =
     (let s1 = s\<lparr>stats := (stats s)\<lparr>totalReads := totalReads (stats s) + 1\<rparr>\<rparr>;
          memtableResult = SkipList_search (memtable s1) key;
          memtableStep = \<lparr>ls_location = ''Memtable (Skip List)'', ls_found = l_found memtableResult,
                          ls_bloomFilterSaved = False\<rparr>
      in if l_found memtableResult
         then (Inr \<lparr>g_found = True, g_value = l_value memtableResult, g_location = ''Memtable'',
                    g_searchPath = [memtableStep], g_sstablesChecked = 0\<rparr>, s1)
         else (case SSTableManager_search (sstableManager s1) key of
                 Inl err \<Rightarrow> (Inl err, s1)
               | Inr sstableResult \<Rightarrow>
                   (Inr \<lparr>g_found = s_found sstableResult,
                         g_value = (if s_found sstableResult then s_value sstableResult else None),
                         g_location = (if s_found sstableResult then ''SSTable'' else ''Not Found''),
                         g_searchPath = memtableStep #
                           map (\<lambda>step. \<lparr>ls_location = ''SSTable Level '' @ decimal (st_level step)
                                                          @ '' ('' @ st_sstableId step @ '')'',
                                          ls_found = st_found step,
                                          ls_bloomFilterSaved = st_bloomFilterSaved step\<rparr>)
                               (s_searchPath sstableResult),
                         g_sstablesChecked = s_sstablesChecked sstableResult\<rparr>,
                    s1\<lparr>stats := foldl trackBloom (stats s1) (s_searchPath sstableResult)\<rparr>)))"

record delete_result =
  d_operation :: string
  d_key :: string
  d_memtableResult :: insert_result
  d_flushed :: bool
  d_flushResult :: "flush_result option"

definition LSMTree_delete ::
  "'v platform \<Rightarrow> env \<Rightarrow> 'v LSMTree \<Rightarrow> string \<Rightarrow> (error + delete_result) \<times> 'v LSMTree" where
  "LSMTree_delete P e s key =
     (let (insertResult, mt) = SkipList_insert e (memtable s) key None;
          s1 = s\<lparr>memtable := mt, stats := (stats s)\<lparr>totalDeletes := totalDeletes (stats s) + 1\<rparr>\<rparr>;
          (flushed, s2) = (if sl_size (memtable s1) \<ge> memtableThreshold s1
                           then flushMemtable P s1 else (Inr None, s1))
      in case flushed of
           Inl err \<Rightarrow> (Inl err, s2)
         | Inr flushResult \<Rightarrow>
             (Inr \<lparr>d_operation = ''DELETE'', d_key = key, d_memtableResult = insertResult,
                   d_flushed = (flushResult \<noteq> None), d_flushResult = flushResult\<rparr>, s2))"

definition LSMTree_compact ::
  "'v platform \<Rightarrow> 'v LSMTree \<Rightarrow> nat \<Rightarrow> nat \<Rightarrow> (error + compaction_result) \<times> 'v LSMTree" where
  "LSMTree_compact P s sourceLevel targetLevel =
     (let (outcome, mgr, cmp) = compactLevel P sourceLevel targetLevel (sstableManager s) (compaction s);
          s1 = s\<lparr>sstableManager := mgr, compaction := cmp\<rparr>
      in case outcome of
           Inr (Success r) \<Rightarrow>
             (outcome, s1\<lparr>stats := (stats s1)\<lparr>totalCompactions := totalCompactions (stats s1) + 1\<rparr>\<rparr>)
         | _ \<Rightarrow> (outcome, s1))"

definition LSMTree_clear :: "'v LSMTree \<Rightarrow> 'v LSMTree" where
  "LSMTree_clear s =
     s\<lparr>memtable := SkipList_clear (memtable s),
       sstableManager := SSTableManager_clear (sstableManager s),
       compaction := clearHistory (compaction s), stats := stats_new\<rparr>"

section \<open>Sequences of operations\<close>

datatype 'v operation =
    Put string "'v option" | Get string | Delete string | Compact nat nat | Clear

datatype 'v response =
    PutOut "error + put_result" | GetOut "error + 'v get_result" | DeleteOut "error + delete_result"
  | CompactOut "error + compaction_result" | ClearOut

fun applyOperation :: "'v platform \<Rightarrow> env \<Rightarrow> 'v operation \<Rightarrow> 'v LSMTree \<Rightarrow> 'v response \<times> 'v LSMTree" where
  "applyOperation P e (Put key val) s = (let (r, s') = LSMTree_put P e s key val in (PutOut r, s'))"
| "applyOperation P e (Get key) s = (let (r, s') = LSMTree_get s key in (GetOut r, s'))"
| "applyOperation P e (Delete key) s = (let (r, s') = LSMTree_delete P e s key in (DeleteOut r, s'))"
| "applyOperation P e (Compact sourceLevel targetLevel) s =
     (let (r, s') = LSMTree_compact P s sourceLevel targetLevel in (CompactOut r, s'))"
| "applyOperation P e Clear s = (ClearOut, LSMTree_clear s)"

fun run ::
  "'v platform \<Rightarrow> (env \<times> 'v operation) list \<Rightarrow> 'v LSMTree \<Rightarrow> 'v response list \<times> 'v LSMTree" where
  "run P [] s = ([], s)"
| "run P ((e, operation) # rest) s =
     (let (out, s') = applyOperation P e operation s; (outs, s'') = run P rest s' in (out # outs, s''))"

section \<open>Observations and example inputs\<close>

text \<open>The found flag and the value of the result of \<open>get\<close>, and those of every \<open>get\<close> of a run.\<close>

definition foundValue :: "error + 'v get_result \<Rightarrow> error + bool \<times> 'v option" where
  "foundValue r = (case r of Inl err \<Rightarrow> Inl err | Inr g \<Rightarrow> Inr (g_found g, g_value g))"

fun getResults :: "'v response list \<Rightarrow> (error + bool \<times> 'v option) list" where
  "getResults [] = []"
| "getResults (GetOut r # rest) = foundValue r # getResults rest"
| "getResults (other # rest) = getResults rest"

text \<open>
  A platform for the closed examples: 16 decimal digits of \<open>ln 100 / (ln 2)\<^sup>2\<close> and of
  \<open>ln 2\<close>, and the length of the JSON text of a string that needs no escape. The
  environment of the examples returns the time 1000 and the sample 0.75 (every new node
  gets level 0).
\<close>

definition examplePlatform :: "string platform" where
  "examplePlatform =
     \<lparr>bloomSize = (\<lambda>n. (n * 9585058377367439 + 999999999999999) div 1000000000000000),
      bloomHashes = (\<lambda>m n. (m * 6931471805599453 + n * 10000000000000000 - 1)
                                div (n * 10000000000000000)),
      jsonLength = (\<lambda>s. Some (length s + 2))\<rparr>"

text \<open>
  Values for the examples of a value without a JSON text: \<open>undefined\<close> and strings, on the
  same platform.
\<close>

datatype example_value = JSundefined | JSstring string

definition undefinedPlatform :: "example_value platform" where
  "undefinedPlatform =
     \<lparr>bloomSize = bloomSize (examplePlatform :: string platform),
      bloomHashes = bloomHashes (examplePlatform :: string platform),
      jsonLength = (\<lambda>v. case v of JSundefined \<Rightarrow> None | JSstring s \<Rightarrow> Some (length s + 2))\<rparr>"

definition exampleEnv :: env where
  "exampleEnv = \<lparr>now = 1000, random = (\<lambda>i. 3 / 4)\<rparr>"

definition puts :: "(string \<times> string) list \<Rightarrow> (env \<times> string operation) list" where
  "puts kvs = map (\<lambda>(k, v). (exampleEnv, Put k (Some v))) kvs"

definition deletes :: "string list \<Rightarrow> (env \<times> string operation) list" where
  "deletes ks = map (\<lambda>k. (exampleEnv, Delete k)) ks"

section \<open>Notions of the proofs\<close>

text \<open>
  A filter is consistent when its byte array has the length the constructor gives it and
  it makes no probe when its size is 0. The constructor establishes this and \<open>add\<close>
  keeps it.
\<close>

definition bf_consistent :: "BloomFilter \<Rightarrow> bool" where
  "bf_consistent bf \<longleftrightarrow>
     length (bf_bits bf) = (bf_size bf + 7) div 8 \<and> (bf_size bf = 0 \<longrightarrow> bf_numHashes bf = 0)"

text \<open>
  The entries whose values all have a JSON text, and the table that the constructor returns
  for them.
\<close>

definition sizable :: "'v platform \<Rightarrow> 'v entry list \<Rightarrow> bool" where
  "sizable P es \<longleftrightarrow>
     list_all (\<lambda>e. case e_value e of None \<Rightarrow> True | Some x \<Rightarrow> jsonLength P x \<noteq> None) es"

definition tableOf :: "'v platform \<Rightarrow> string \<Rightarrow> nat \<Rightarrow> 'v entry list \<Rightarrow> 'v SSTable" where
  "tableOf P ident lvl input =
     (let es = sort_key e_key input;
          bf = buildBloomFilter P es;
          idx = buildSparseIndex es 10
      in \<lparr>sst_id = ident, sst_level = lvl, sst_entries = es, sst_bloomFilter = bf,
          sst_sparseIndex = idx,
          sst_size = (case calculateSize P es bf idx of Inl err \<Rightarrow> 0 | Inr n \<Rightarrow> n),
          sst_keyRange = getKeyRange es\<rparr>)"

definition index_valid :: "'v entry list \<Rightarrow> (string \<times> nat) list \<Rightarrow> bool" where
  "index_valid es idx \<longleftrightarrow> (\<forall>(k, p) \<in> set idx. p < length es \<and> k = e_key (es ! p))"

text \<open>The key-value pairs of the nodes, in order: what does not depend on levels and time.\<close>

definition pairs :: "'v node list \<Rightarrow> (string \<times> 'v option) list" where
  "pairs ns = map (\<lambda>n. (n_key n, n_value n)) ns"

fun upsert :: "string \<Rightarrow> 'v option \<Rightarrow> (string \<times> 'v option) list \<Rightarrow> (string \<times> 'v option) list" where
  "upsert k v [] = [(k, v)]"
| "upsert k v (p # ps) =
     (if fst p < k then p # upsert k v ps else if fst p = k then (k, v) # ps else (k, v) # p # ps)"

text \<open>
  The erasure sets every record timestamp to 0. Every function of the tables, the manager
  and the compaction commutes with it: none of them reads a timestamp.
\<close>

definition noTime :: "'v entry \<Rightarrow> 'v entry" where
  "noTime e = e\<lparr>e_timestamp := 0\<rparr>"

definition er_sst :: "'v SSTable \<Rightarrow> 'v SSTable" where
  "er_sst t = t\<lparr>sst_entries := map noTime (sst_entries t)\<rparr>"

definition er_mgr :: "'v SSTableManager \<Rightarrow> 'v SSTableManager" where
  "er_mgr m = m\<lparr>mgr_levels := map (\<lambda>(l, ts). (l, map er_sst ts)) (mgr_levels m)\<rparr>"

definition er_elem :: "'v heap_element \<Rightarrow> 'v heap_element" where
  "er_elem x = x\<lparr>h_timestamp := 0\<rparr>"

definition er_it :: "'v iterator \<Rightarrow> 'v iterator" where
  "er_it it = it\<lparr>it_entries := map noTime (it_entries it)\<rparr>"

text \<open>One turn of the main loop of \<open>kWayMerge\<close>, for the proofs about the loop.\<close>

definition mergeStep ::
  "'v heap_element list \<Rightarrow> 'v iterator list \<Rightarrow> 'v entry list \<Rightarrow> string option \<Rightarrow> nat
   \<Rightarrow> error + ('v heap_element list \<times> 'v iterator list \<times> 'v entry list \<times> string option \<times> nat)" where
  "mergeStep heap iterators mergedEntries lastKey duplicatesRemoved =
     (case extractMin heap of
        (None, heap1) \<Rightarrow> Inl TypeError
      | (Some minimum, heap1) \<Rightarrow>
          if length iterators \<le> h_iteratorIndex minimum then Inl TypeError
          else
            (let iterator = (iterators ! h_iteratorIndex minimum)
                   \<lparr>it_currentIndex := it_currentIndex (iterators ! h_iteratorIndex minimum) + 1\<rparr>
             in Inr (if it_currentIndex iterator < length (it_entries iterator)
                     then MinHeap_insert heap1
                            \<lparr>h_key = e_key (it_entries iterator ! it_currentIndex iterator),
                             h_value = e_value (it_entries iterator ! it_currentIndex iterator),
                             h_timestamp = e_timestamp (it_entries iterator ! it_currentIndex iterator),
                             h_iteratorIndex = h_iteratorIndex minimum\<rparr>
                     else heap1,
                     iterators[h_iteratorIndex minimum := iterator],
                     if Some (h_key minimum) \<noteq> lastKey \<and> h_value minimum \<noteq> None
                     then mergedEntries @ [\<lparr>e_key = h_key minimum, e_value = h_value minimum,
                                             e_timestamp = h_timestamp minimum\<rparr>]
                     else mergedEntries,
                     if Some (h_key minimum) \<noteq> lastKey then Some (h_key minimum) else lastKey,
                     if Some (h_key minimum) \<noteq> lastKey then duplicatesRemoved
                     else duplicatesRemoved + 1)))"

definition er_step ::
  "error + ('v heap_element list \<times> 'v iterator list \<times> 'v entry list \<times> string option \<times> nat)
   \<Rightarrow> error + ('v heap_element list \<times> 'v iterator list \<times> 'v entry list \<times> string option \<times> nat)" where
  "er_step r = (case r of Inl e \<Rightarrow> Inl e
                | Inr (heap, its, merged, lastKey, d) \<Rightarrow>
                    Inr (map er_elem heap, map er_it its, map noTime merged, lastKey, d))"

definition er_merged :: "error + 'v entry list \<times> nat \<Rightarrow> error + 'v entry list \<times> nat" where
  "er_merged r = (case r of Inl e \<Rightarrow> Inl e | Inr (es, d) \<Rightarrow> Inr (map noTime es, d))"

definition er_out ::
  "'a \<times> 'v SSTableManager \<times> Compaction \<Rightarrow> 'a \<times> 'v SSTableManager \<times> Compaction" where
  "er_out r = (case r of (outcome, mgr, cmp) \<Rightarrow> (outcome, er_mgr mgr, cmp))"

text \<open>The parts of \<open>compactLevel\<close>, named for the proofs.\<close>

definition compactInputs :: "'v SSTableManager \<Rightarrow> nat \<Rightarrow> nat \<Rightarrow> 'v SSTable list" where
  "compactInputs m src tgt =
     getLevel m src @ findOverlappingSSTables (getLevel m src) (getLevel m tgt)"

definition compactPrepared :: "'v SSTableManager \<Rightarrow> nat \<Rightarrow> nat \<Rightarrow> 'v SSTableManager" where
  "compactPrepared m src tgt =
     foldl (\<lambda>m sstable. addSSTable m tgt sstable) (clearLevel (clearLevel m src) tgt)
       (filter (\<lambda>s. s \<notin> set (findOverlappingSSTables (getLevel m src) (getLevel m tgt)))
          (getLevel m tgt))"

definition compactRecord ::
  "Compaction \<Rightarrow> nat \<Rightarrow> nat \<Rightarrow> nat \<Rightarrow> nat \<Rightarrow> nat \<Rightarrow> merge_stats \<Rightarrow> compaction_record" where
  "compactRecord c src tgt inputs inputBytes outputs st =
     \<lparr>c_id = cmp_totalCompactions c, c_sourceLevel = src, c_targetLevel = tgt,
      c_inputSSTables = inputs, c_outputSSTables = 1, c_inputBytes = inputBytes,
      c_outputBytes = outputs * 100, c_duplicatesRemoved = ms_duplicatesRemoved st,
      c_mergeStats = st\<rparr>"

text \<open>
  The trigger at one level, as a relation between the manager and the compaction
  bookkeeping before and after it: when the level holds at least as many tables as its
  threshold, \<open>compactLevel\<close> from the level to the next one has run on the state before and
  has succeeded, with the one record that is reported and the state after as its result;
  otherwise nothing is reported and nothing has changed.
\<close>

definition triggerAt ::
  "'v platform \<Rightarrow> nat \<Rightarrow> 'v SSTableManager \<Rightarrow> Compaction
   \<Rightarrow> compaction_record list \<Rightarrow> 'v SSTableManager \<Rightarrow> Compaction \<Rightarrow> bool" where
  "triggerAt P L mgr cmp reported mgr' cmp' \<longleftrightarrow>
     (if threshold L \<le> length (getLevel mgr L)
      then (case reported of
              [r] \<Rightarrow> compactLevel P L (L + 1) mgr cmp = (Inr (Success r), mgr', cmp')
            | _ \<Rightarrow> False)
      else reported = [] \<and> mgr' = mgr \<and> cmp' = cmp)"

text \<open>
  Two engine states are alike when their memtables hold the same key-value pairs in the
  same order, with the same size counter and parameters, their managers are equal up to
  the timestamps of the records, and their thresholds, compaction bookkeeping and counters
  are equal. The memtable of a state is ordered when its keys are sorted.
\<close>

definition alike :: "'v LSMTree \<Rightarrow> 'v LSMTree \<Rightarrow> bool" where
  "alike s1 s2 \<longleftrightarrow>
     pairs (sl_nodes (memtable s1)) = pairs (sl_nodes (memtable s2)) \<and>
     sl_size (memtable s1) = sl_size (memtable s2) \<and>
     sl_maxLevel (memtable s1) = sl_maxLevel (memtable s2) \<and>
     sl_probability (memtable s1) = sl_probability (memtable s2) \<and>
     memtableThreshold s1 = memtableThreshold s2 \<and>
     er_mgr (sstableManager s1) = er_mgr (sstableManager s2) \<and>
     compaction s1 = compaction s2 \<and> stats s1 = stats s2"

definition ordered :: "'v LSMTree \<Rightarrow> bool" where
  "ordered s \<longleftrightarrow> sorted (map n_key (sl_nodes (memtable s)))"

definition maybeFlush ::
  "'v platform \<Rightarrow> 'v LSMTree \<Rightarrow> (error + flush_result option) \<times> 'v LSMTree" where
  "maybeFlush P s = (if sl_size (memtable s) \<ge> memtableThreshold s
                     then flushMemtable P s else (Inr None, s))"

text \<open>\<open>put\<close> and \<open>delete\<close> as the steps they are made of.\<close>

definition inserted :: "env \<Rightarrow> 'v LSMTree \<Rightarrow> string \<Rightarrow> 'v option \<Rightarrow> lsm_stats \<Rightarrow> 'v LSMTree" where
  "inserted e s key val st = s\<lparr>memtable := snd (SkipList_insert e (memtable s) key val), stats := st\<rparr>"


section \<open>Properties of the Bloom filter\<close>

declare setBit.simps [simp del] getBit.simps [simp del]

lemma bit_or_mask_nonzero:
  fixes w :: "8 word"
  assumes "n < 8"
  shows "(w OR 2 ^ n) AND 2 ^ n \<noteq> 0"
  using assms by simp

lemma bit_or_keeps_nonzero:
  fixes w :: "8 word"
  assumes "w AND 2 ^ n \<noteq> 0"
  shows "(w OR x) AND 2 ^ n \<noteq> 0"
proof -
  from assms obtain i where i: "bit (w AND 2 ^ n) i"
    by (auto simp add: bit_eq_iff)
  then have "bit ((w OR x) AND 2 ^ n) i"
    by (simp add: bit_and_iff bit_or_iff)
  then show ?thesis by auto
qed

lemma length_setBit [simp]: "length (setBit bits h) = length bits"
  by (cases h) (simp_all add: setBit.simps Let_def)

lemma length_foldl_setBit [simp]: "length (foldl setBit bits hs) = length bits"
  by (induction hs arbitrary: bits) simp_all

lemma getBit_setBit_same:
  "i div 8 < length bits \<Longrightarrow> getBit (setBit bits (Some i)) (Some i)"
  by (simp add: setBit.simps getBit.simps Let_def bit_or_mask_nonzero)

lemma getBit_setBit_mono: "getBit bits h \<Longrightarrow> getBit (setBit bits h') h"
proof (cases h; cases h')
  fix i j assume h: "h = Some i" "h' = Some j" and g: "getBit bits h"
  show "getBit (setBit bits h') h"
  proof (cases "i div 8 = j div 8")
    case True
    with g h show ?thesis
      by (auto simp add: setBit.simps getBit.simps Let_def bit_or_keeps_nonzero)
  next
    case False
    with g h show ?thesis by (auto simp add: setBit.simps getBit.simps Let_def)
  qed
qed (simp_all add: setBit.simps getBit.simps)

lemma getBit_foldl_setBit_mono: "getBit bits h \<Longrightarrow> getBit (foldl setBit bits hs) h"
  by (induction hs arbitrary: bits) (simp_all add: getBit_setBit_mono)

lemma getBit_foldl_setBit_member:
  "Some i \<in> set hs \<Longrightarrow> i div 8 < length bits \<Longrightarrow> getBit (foldl setBit bits hs) (Some i)"
proof (induction hs arbitrary: bits)
  case Nil
  then show ?case by simp
next
  case (Cons h hs)
  show ?case
  proof (cases "h = Some i")
    case True
    have "getBit (setBit bits (Some i)) (Some i)"
      using Cons.prems(2) by (rule getBit_setBit_same)
    then show ?thesis using True by (simp add: getBit_foldl_setBit_mono)
  next
    case False
    with Cons.prems have "Some i \<in> set hs" by simp
    moreover have "i div 8 < length (setBit bits h)" using Cons.prems(2) by simp
    ultimately show ?thesis using Cons.IH by simp
  qed
qed

lemma allBitsSet_iff: "allBitsSet bits hs \<longleftrightarrow> (\<forall>h \<in> set hs. getBit bits h)"
  by (induction hs) auto

lemma bf_consistent_new: "bf_consistent (BloomFilter_new P n)"
  by (simp add: bf_consistent_def BloomFilter_new_def Let_def)

lemma getHashes_add [simp]: "getHashes (BloomFilter_add bf k) key = getHashes bf key"
  unfolding getHashes_def BloomFilter_add_def hash1_def hash2_def
  by (simp split: option.splits)

lemma bf_consistent_add: "bf_consistent bf \<Longrightarrow> bf_consistent (BloomFilter_add bf key)"
  by (simp add: bf_consistent_def BloomFilter_add_def)

lemma bf_consistent_foldl_add:
  "bf_consistent bf \<Longrightarrow> bf_consistent (foldl BloomFilter_add bf keys)"
  by (induction keys arbitrary: bf) (simp_all add: bf_consistent_add)

lemma getHashes_in_range:
  assumes "bf_consistent bf" and "h \<in> set (getHashes bf key)"
  shows "\<exists>i. h = Some i \<and> i div 8 < length (bf_bits bf)"
proof -
  from assms(2) have k: "bf_numHashes bf \<noteq> 0" by (auto simp add: getHashes_def)
  with assms(1) have m: "0 < bf_size bf" by (auto simp add: bf_consistent_def)
  from assms(2) m obtain i where i: "h = Some i" "i < bf_size bf"
    by (auto simp add: getHashes_def hash1_def hash2_def jsMod_def)
  from i(2) have "i div 8 < (bf_size bf + 7) div 8" by (simp add: less_mult_imp_div_less div_less_iff_less_mult)
  with assms(1) i(1) show ?thesis by (simp add: bf_consistent_def)
qed

lemma contains_after_add:
  assumes "bf_consistent bf"
  shows "BloomFilter_contains (BloomFilter_add bf key) key"
proof -
  have "getBit (foldl setBit (bf_bits bf) (getHashes bf key)) h"
    if "h \<in> set (getHashes bf key)" for h
  proof -
    from getHashes_in_range [OF assms that] obtain i
      where "h = Some i" "i div 8 < length (bf_bits bf)" by blast
    with that show ?thesis by (simp add: getBit_foldl_setBit_member)
  qed
  then show ?thesis
    by (simp add: BloomFilter_contains_def allBitsSet_iff) (simp add: BloomFilter_add_def)
qed

lemma contains_add_mono:
  "BloomFilter_contains bf key \<Longrightarrow> BloomFilter_contains (BloomFilter_add bf k') key"
  by (simp add: BloomFilter_contains_def allBitsSet_iff)
     (simp add: BloomFilter_add_def getBit_foldl_setBit_mono)

lemma contains_foldl_add_mono:
  "BloomFilter_contains bf key \<Longrightarrow> BloomFilter_contains (foldl BloomFilter_add bf keys) key"
  by (induction keys arbitrary: bf) (simp_all add: contains_add_mono)

lemma contains_foldl_add_member:
  "bf_consistent bf \<Longrightarrow> key \<in> set keys \<Longrightarrow>
   BloomFilter_contains (foldl BloomFilter_add bf keys) key"
proof (induction keys arbitrary: bf)
  case Nil
  then show ?case by simp
next
  case (Cons k keys)
  show ?case
  proof (cases "k = key")
    case True
    with Cons.prems(1) show ?thesis
      by (simp add: contains_after_add contains_foldl_add_mono)
  next
    case False
    with Cons show ?thesis by (simp add: bf_consistent_add)
  qed
qed

section \<open>Properties of SSTable\<close>

declare binarySearch.simps [simp del]

lemma binarySearch_correct:
  assumes "sorted (map e_key es)" "0 \<le> l" "r < int (length es)"
  shows "\<exists>res. binarySearch es key l r = Inr res \<and> \<not> r_bloomFilterSaved res \<and>
           (r_found res \<longleftrightarrow> (\<exists>i. l \<le> int i \<and> int i \<le> r \<and> e_key (es ! i) = key)) \<and>
           (r_found res \<longrightarrow> (\<exists>i<length es. e_key (es ! i) = key \<and> r_value res = e_value (es ! i)))"
  using assms
proof (induction es key l r rule: binarySearch.induct)
  case (1 es key left right)
  show ?case
  proof (cases "left \<le> right")
    case False
    then show ?thesis by (subst binarySearch.simps) auto
  next
    case True
    define mid where "mid = (left + right) div 2"
    have mid: "left \<le> mid" "mid \<le> right" "0 \<le> mid" "mid < int (length es)"
      using True 1(4,5) by (auto simp add: mid_def)
    have srt: "\<And>i j. i \<le> j \<Longrightarrow> j < length es \<Longrightarrow> e_key (es ! i) \<le> e_key (es ! j)"
      using 1(3) by (simp add: sorted_iff_nth_mono)
    show ?thesis
    proof (cases "e_key (es ! nat mid) = key")
      case eq: True
      have "binarySearch es key left right =
         Inr \<lparr>r_found = True, r_value = e_value (es ! nat mid), r_bloomFilterSaved = False\<rparr>"
        using True mid eq by (subst binarySearch.simps) (simp add: mid_def Let_def)
      moreover have "\<exists>i. left \<le> int i \<and> int i \<le> right \<and> e_key (es ! i) = key"
        using mid eq by (intro exI [of _ "nat mid"]) simp
      moreover have "\<exists>i<length es. e_key (es ! i) = key \<and> e_value (es ! nat mid) = e_value (es ! i)"
        using mid eq by (intro exI [of _ "nat mid"]) simp
      ultimately show ?thesis by simp
    next
      case neq: False
      show ?thesis
      proof (cases "key < e_key (es ! nat mid)")
        case lt: True
        have step: "binarySearch es key left right = binarySearch es key left (mid - 1)"
          using True mid neq lt by (subst binarySearch.simps) (simp add: mid_def Let_def)
        have IH: "\<exists>res. binarySearch es key left (mid - 1) = Inr res \<and> \<not> r_bloomFilterSaved res \<and>
           (r_found res \<longleftrightarrow> (\<exists>i. left \<le> int i \<and> int i \<le> mid - 1 \<and> e_key (es ! i) = key)) \<and>
           (r_found res \<longrightarrow> (\<exists>i<length es. e_key (es ! i) = key \<and> r_value res = e_value (es ! i)))"
          using 1(1) [OF True mid_def _ refl neq lt] mid 1(3,4) by (simp add: mid_def)
        have "(\<exists>i. left \<le> int i \<and> int i \<le> mid - 1 \<and> e_key (es ! i) = key)
               \<longleftrightarrow> (\<exists>i. left \<le> int i \<and> int i \<le> right \<and> e_key (es ! i) = key)"
        proof
          assume "\<exists>i. left \<le> int i \<and> int i \<le> mid - 1 \<and> e_key (es ! i) = key"
          then show "\<exists>i. left \<le> int i \<and> int i \<le> right \<and> e_key (es ! i) = key"
            using mid by force
        next
          assume "\<exists>i. left \<le> int i \<and> int i \<le> right \<and> e_key (es ! i) = key"
          then obtain i where i: "left \<le> int i" "int i \<le> right" "e_key (es ! i) = key" by blast
          have "int i < mid"
          proof (rule ccontr)
            assume "\<not> int i < mid"
            then have "nat mid \<le> i" by simp
            moreover have "i < length es" using i(2) 1(5) by simp
            ultimately have "e_key (es ! nat mid) \<le> e_key (es ! i)" by (rule srt)
            with i(3) lt show False by simp
          qed
          with i show "\<exists>i. left \<le> int i \<and> int i \<le> mid - 1 \<and> e_key (es ! i) = key" by force
        qed
        with IH step show ?thesis by simp
      next
        case ge: False
        have step: "binarySearch es key left right = binarySearch es key (mid + 1) right"
          using True mid neq ge by (subst binarySearch.simps) (simp add: mid_def Let_def)
        have IH: "\<exists>res. binarySearch es key (mid + 1) right = Inr res \<and> \<not> r_bloomFilterSaved res \<and>
           (r_found res \<longleftrightarrow> (\<exists>i. mid + 1 \<le> int i \<and> int i \<le> right \<and> e_key (es ! i) = key)) \<and>
           (r_found res \<longrightarrow> (\<exists>i<length es. e_key (es ! i) = key \<and> r_value res = e_value (es ! i)))"
          using 1(2) [OF True mid_def _ refl neq ge] mid 1(3,5) by (simp add: mid_def)
        have "(\<exists>i. mid + 1 \<le> int i \<and> int i \<le> right \<and> e_key (es ! i) = key)
               \<longleftrightarrow> (\<exists>i. left \<le> int i \<and> int i \<le> right \<and> e_key (es ! i) = key)"
        proof
          assume "\<exists>i. mid + 1 \<le> int i \<and> int i \<le> right \<and> e_key (es ! i) = key"
          then show "\<exists>i. left \<le> int i \<and> int i \<le> right \<and> e_key (es ! i) = key"
            using mid by force
        next
          assume "\<exists>i. left \<le> int i \<and> int i \<le> right \<and> e_key (es ! i) = key"
          then obtain i where i: "left \<le> int i" "int i \<le> right" "e_key (es ! i) = key" by blast
          have "mid < int i"
          proof (rule ccontr)
            assume "\<not> mid < int i"
            then have "i \<le> nat mid" by simp
            moreover have "nat mid < length es" using mid by simp
            ultimately have "e_key (es ! i) \<le> e_key (es ! nat mid)" by (rule srt)
            with i(3) ge neq show False by simp
          qed
          with i show "\<exists>i. mid + 1 \<le> int i \<and> int i \<le> right \<and> e_key (es ! i) = key" by force
        qed
        with IH step show ?thesis by simp
      qed
    qed
  qed
qed

lemma binarySearch_miss:
  "binarySearch es key l r = Inr res \<Longrightarrow> \<not> r_found res \<Longrightarrow> r_value res = None"
proof (induction es key l r rule: binarySearch.induct)
  case (1 es key left right)
  from 1(3,4) 1(1,2) show ?case
    by (subst (asm) binarySearch.simps) (auto simp add: Let_def split: if_splits)
qed

lemma sizable_sort_key [simp]: "sizable P (sort_key e_key es) = sizable P es"
  by (simp add: sizable_def list_all_iff)

lemma entriesSize_throws: "\<not> sizable P es \<Longrightarrow> entriesSize P es n = Inl TypeError"
proof (induction es arbitrary: n)
  case Nil
  then show ?case by (simp add: sizable_def)
next
  case (Cons e es)
  then show ?case
    by (cases "e_value e") (auto simp add: sizable_def stringifyLength_def split: option.splits)
qed

lemma entriesSize_returns: "sizable P es \<Longrightarrow> \<exists>m. entriesSize P es n = Inr m"
proof (induction es arbitrary: n)
  case Nil
  show ?case by simp
next
  case (Cons e es)
  then show ?case
    by (cases "e_value e") (auto simp add: sizable_def stringifyLength_def split: option.splits)
qed

lemma calculateSize_sizable:
  "calculateSize P es bf idx =
     (if sizable P es
      then Inr (case calculateSize P es bf idx of Inl err \<Rightarrow> 0 | Inr n \<Rightarrow> n)
      else Inl TypeError)"
proof (cases "sizable P es")
  case True
  from entriesSize_returns [OF this, of 0] obtain m where "entriesSize P es 0 = Inr m" by blast
  with True show ?thesis by (simp add: calculateSize_def)
next
  case False
  then show ?thesis by (simp add: calculateSize_def entriesSize_throws)
qed

lemma SSTable_new_tableOf:
  "SSTable_new P i l input = (if sizable P input then Inr (tableOf P i l input) else Inl TypeError)"
proof -
  let ?es = "sort_key e_key input"
  note c = calculateSize_sizable [of P ?es "buildBloomFilter P ?es" "buildSparseIndex ?es 10"]
  show ?thesis
  proof (cases "sizable P input")
    case True
    with c show ?thesis
      by (cases "calculateSize P ?es (buildBloomFilter P ?es) (buildSparseIndex ?es 10)")
         (simp_all add: SSTable_new_def tableOf_def Let_def)
  next
    case False
    with c show ?thesis by (simp add: SSTable_new_def Let_def)
  qed
qed

lemma SSTable_new_Inr:
  "SSTable_new P i l input = Inr t \<longleftrightarrow> sizable P input \<and> t = tableOf P i l input"
  by (auto simp add: SSTable_new_tableOf)

lemma tableOf_simps [simp]:
  "sst_id (tableOf P i l input) = i"
  "sst_level (tableOf P i l input) = l"
  "sst_entries (tableOf P i l input) = sort_key e_key input"
  "sst_bloomFilter (tableOf P i l input) = buildBloomFilter P (sort_key e_key input)"
  "sst_sparseIndex (tableOf P i l input) = buildSparseIndex (sort_key e_key input) 10"
  "sst_keyRange (tableOf P i l input) = getKeyRange (sort_key e_key input)"
  by (simp_all add: tableOf_def Let_def)

lemma buildBloomFilter_contains:
  "key \<in> e_key ` set es \<Longrightarrow> BloomFilter_contains (buildBloomFilter P es) key"
  unfolding buildBloomFilter_def
  by (rule contains_foldl_add_member [OF bf_consistent_new]) simp

lemma buildSparseIndex_valid: "index_valid es (buildSparseIndex es step)"
proof -
  have "length es - 1 < length es" if "length es mod step \<noteq> 0"
    using that by (cases "length es") auto
  then show ?thesis
    by (auto simp add: index_valid_def buildSparseIndex_def Let_def)
qed

lemma sparseRange_sound:
  assumes "sorted (map e_key es)" "index_valid es idx"
    and "sparseRange idx key (0, int (length es) - 1) = (s, e)"
  shows "0 \<le> s \<and> e < int (length es) \<and>
         ((\<exists>i<length es. e_key (es ! i) = key) \<longrightarrow>
          (\<exists>i. s \<le> int i \<and> int i \<le> e \<and> e_key (es ! i) = key))"
  using assms
proof (induction idx key "(0::int, int (length es) - 1)" rule: sparseRange.induct)
  case (1 a b rest key)
  show ?case
  proof (cases "fst a \<le> key \<and> key < fst b")
    case False
    with 1 show ?thesis by (simp add: index_valid_def)
  next
    case True
    obtain ka pa kb pb where ab: "a = (ka, pa)" "b = (kb, pb)" by (cases a, cases b) auto
    with 1(3) have va: "pa < length es" "ka = e_key (es ! pa)"
      and vb: "pb < length es" "kb = e_key (es ! pb)"
      by (auto simp add: index_valid_def)
    from True 1(4) ab have se: "s = int pa" "e = int pb" by auto
    have srt: "\<And>i j. i \<le> j \<Longrightarrow> j < length es \<Longrightarrow> e_key (es ! i) \<le> e_key (es ! j)"
      using 1(2) by (simp add: sorted_iff_nth_mono)
    have inside: "\<exists>j. s \<le> int j \<and> int j \<le> e \<and> e_key (es ! j) = key"
      if i: "i < length es" "e_key (es ! i) = key" for i
    proof (cases "ka = key")
      case True
      have "pa \<le> pb"
      proof (rule ccontr)
        assume "\<not> pa \<le> pb"
        then have "pb \<le> pa" by simp
        then have "kb \<le> ka" using srt [of pb pa] va vb by simp
        with \<open>fst a \<le> key \<and> key < fst b\<close> ab show False by auto
      qed
      with True va se show ?thesis by (intro exI [of _ pa]) simp
    next
      case False
      with \<open>fst a \<le> key \<and> key < fst b\<close> ab have strict: "ka < key" "key < kb" by auto
      have "pa \<le> i"
      proof (rule ccontr)
        assume "\<not> pa \<le> i"
        then have "i \<le> pa" by simp
        then have "e_key (es ! i) \<le> ka" using srt [of i pa] va by simp
        with strict i show False by simp
      qed
      moreover have "i \<le> pb"
      proof (rule ccontr)
        assume "\<not> i \<le> pb"
        then have "pb \<le> i" by simp
        then have "kb \<le> e_key (es ! i)" using srt [of pb i] vb i by simp
        with strict i show False by simp
      qed
      ultimately show ?thesis using se i by (intro exI [of _ i]) simp
    qed
    from se va vb inside show ?thesis by auto
  qed
qed auto

lemma SSTable_get_sound:
  assumes "sorted (map e_key (sst_entries t))"
    and "index_valid (sst_entries t) (sst_sparseIndex t)"
    and "\<And>k. k \<in> e_key ` set (sst_entries t) \<Longrightarrow> BloomFilter_contains (sst_bloomFilter t) k"
  shows "\<exists>res. SSTable_get t key = Inr res \<and>
           (r_found res \<longleftrightarrow> key \<in> e_key ` set (sst_entries t)) \<and>
           (r_found res \<longrightarrow> (\<exists>e \<in> set (sst_entries t). e_key e = key \<and> r_value res = e_value e)) \<and>
           (\<not> r_found res \<longrightarrow> r_value res = None) \<and>
           (r_bloomFilterSaved res \<longleftrightarrow> \<not> BloomFilter_contains (sst_bloomFilter t) key)"
proof (cases "BloomFilter_contains (sst_bloomFilter t) key")
  case False
  with assms(3) have "key \<notin> e_key ` set (sst_entries t)" by blast
  with False show ?thesis by (simp add: SSTable_get_def)
next
  case True
  let ?es = "sst_entries t"
  obtain s e where se: "sparseRange (sst_sparseIndex t) key (0, int (length ?es) - 1) = (s, e)"
    by (cases "sparseRange (sst_sparseIndex t) key (0, int (length ?es) - 1)")
  from sparseRange_sound [OF assms(1,2) se]
  have rng: "0 \<le> s" "e < int (length ?es)"
    and cover: "(\<exists>i<length ?es. e_key (?es ! i) = key) \<Longrightarrow>
                (\<exists>i. s \<le> int i \<and> int i \<le> e \<and> e_key (?es ! i) = key)"
    by blast+
  from binarySearch_correct [OF assms(1) rng, of key] obtain res where
    res: "binarySearch ?es key s e = Inr res" "\<not> r_bloomFilterSaved res"
      "r_found res \<longleftrightarrow> (\<exists>i. s \<le> int i \<and> int i \<le> e \<and> e_key (?es ! i) = key)"
      "r_found res \<longrightarrow> (\<exists>i<length ?es. e_key (?es ! i) = key \<and> r_value res = e_value (?es ! i))"
    by blast
  have get: "SSTable_get t key = Inr res"
    using True se res(1) by (simp add: SSTable_get_def)
  have found: "r_found res \<longleftrightarrow> key \<in> e_key ` set ?es"
  proof
    assume "r_found res"
    with res(4) obtain i where "i < length ?es" "e_key (?es ! i) = key" by blast
    then show "key \<in> e_key ` set ?es" by (metis imageI nth_mem)
  next
    assume "key \<in> e_key ` set ?es"
    then obtain i where "i < length ?es" "e_key (?es ! i) = key"
      by (auto simp add: in_set_conv_nth)
    with cover res(3) show "r_found res" by blast
  qed
  have val: "\<exists>x \<in> set ?es. e_key x = key \<and> r_value res = e_value x" if "r_found res"
    using res(4) that by (metis nth_mem)
  have miss: "r_value res = None" if "\<not> r_found res"
    using res(1) that by (rule binarySearch_miss)
  from get found val miss res(2) True show ?thesis by auto
qed

lemma tableOf_get:
  "\<exists>res. SSTable_get (tableOf P i l input) key = Inr res \<and>
     (r_found res \<longleftrightarrow> key \<in> e_key ` set input) \<and>
     (r_found res \<longrightarrow> (\<exists>e \<in> set input. e_key e = key \<and> r_value res = e_value e)) \<and>
     (\<not> r_found res \<longrightarrow> r_value res = None) \<and>
     (r_bloomFilterSaved res \<longleftrightarrow>
        \<not> BloomFilter_contains (sst_bloomFilter (tableOf P i l input)) key)"
proof -
  have "\<exists>res. SSTable_get (tableOf P i l input) key = Inr res \<and>
     (r_found res \<longleftrightarrow> key \<in> e_key ` set (sst_entries (tableOf P i l input))) \<and>
     (r_found res \<longrightarrow> (\<exists>e \<in> set (sst_entries (tableOf P i l input)). e_key e = key \<and> r_value res = e_value e)) \<and>
     (\<not> r_found res \<longrightarrow> r_value res = None) \<and>
     (r_bloomFilterSaved res \<longleftrightarrow>
        \<not> BloomFilter_contains (sst_bloomFilter (tableOf P i l input)) key)"
    by (rule SSTable_get_sound)
       (simp_all add: buildSparseIndex_valid buildBloomFilter_contains)
  then show ?thesis by simp
qed

lemma tableOf_bloom_contains:
  "key \<in> e_key ` set input \<Longrightarrow>
   BloomFilter_contains (sst_bloomFilter (tableOf P i l input)) key"
  by (simp add: buildBloomFilter_contains)

lemma tableOf_eq_iff [simp]:
  "tableOf P i l es = tableOf P i' l' es' \<longleftrightarrow>
     i = i' \<and> l = l' \<and> sort_key e_key es = sort_key e_key es'"
  by (auto simp add: tableOf_def Let_def)

lemma length_bits_buildBloomFilter:
  "length (bf_bits (buildBloomFilter P es)) = (bloomSize P (length es) + 7) div 8"
proof -
  have "bf_consistent (buildBloomFilter P es)"
    unfolding buildBloomFilter_def by (rule bf_consistent_foldl_add [OF bf_consistent_new])
  moreover have "bf_size (foldl BloomFilter_add bf ks) = bf_size bf" for bf ks
    by (induction ks arbitrary: bf) (simp_all add: BloomFilter_add_def)
  ultimately show ?thesis
    by (simp add: bf_consistent_def buildBloomFilter_def BloomFilter_new_def Let_def)
qed

lemma tableOf_get_distinct:
  assumes "distinct (map e_key input)"
  shows "SSTable_get (tableOf P i l input) key =
     Inr (case map_of (map (\<lambda>e. (e_key e, e_value e)) input) key of
            Some v \<Rightarrow> \<lparr>r_found = True, r_value = v, r_bloomFilterSaved = False\<rparr>
          | None \<Rightarrow> \<lparr>r_found = False, r_value = None,
                      r_bloomFilterSaved =
                        (\<not> BloomFilter_contains (sst_bloomFilter (tableOf P i l input)) key)\<rparr>)"
proof -
  from tableOf_get [of P i l input key] obtain res where res:
    "SSTable_get (tableOf P i l input) key = Inr res"
    "r_found res \<longleftrightarrow> key \<in> e_key ` set input"
    "r_found res \<longrightarrow> (\<exists>e \<in> set input. e_key e = key \<and> r_value res = e_value e)"
    "\<not> r_found res \<longrightarrow> r_value res = None"
    "r_bloomFilterSaved res \<longleftrightarrow>
        \<not> BloomFilter_contains (sst_bloomFilter (tableOf P i l input)) key"
    by blast
  let ?m = "map_of (map (\<lambda>e. (e_key e, e_value e)) input)"
  have dist: "distinct (map fst (map (\<lambda>e. (e_key e, e_value e)) input))"
    using assms by (simp add: comp_def)
  show ?thesis
  proof (cases "r_found res")
    case True
    with res(3) obtain e where e: "e \<in> set input" "e_key e = key" "r_value res = e_value e"
      by blast
    then have "(key, e_value e) \<in> set (map (\<lambda>e. (e_key e, e_value e)) input)" by force
    with dist have "?m key = Some (e_value e)" by (rule map_of_is_SomeI)
    moreover have "\<not> r_bloomFilterSaved res"
      using res(5) True res(2) tableOf_bloom_contains [of key input P i l] by simp
    ultimately show ?thesis using res(1) True e(3) by simp
  next
    case False
    with res(2) have "key \<notin> fst ` set (map (\<lambda>e. (e_key e, e_value e)) input)" by force
    then have "?m key = None" by (simp add: map_of_eq_None_iff)
    with res(1,4,5) False show ?thesis by simp
  qed
qed

section \<open>Properties of SSTableManager\<close>

lemma map_of_Map_set: "map_of (Map_set k v m) k' = (if k' = k then Some v else map_of m k')"
  by (induction m) auto

lemma getLevel_clearLevel:
  "getLevel (clearLevel m L) L' = (if L' = L then [] else getLevel m L')"
  by (simp add: getLevel_def clearLevel_def map_of_Map_set)

lemma getLevel_addSSTable:
  "getLevel (addSSTable m L t) L' = (if L' = L then getLevel m L @ [t] else getLevel m L')"
  by (simp add: getLevel_def addSSTable_def map_of_Map_set Let_def)

lemma getLevel_foldl_addSSTable:
  "getLevel (foldl (\<lambda>m t. addSSTable m L t) m ts) L'
     = (if L' = L then getLevel m L @ ts else getLevel m L')"
  by (induction ts arbitrary: m) (simp_all add: getLevel_addSSTable)

lemma mgr_nextId_addSSTable [simp]: "mgr_nextId (addSSTable m L t) = mgr_nextId m"
  by (simp add: addSSTable_def Let_def)

lemma mgr_nextId_clearLevel [simp]: "mgr_nextId (clearLevel m L) = mgr_nextId m"
  by (simp add: clearLevel_def)

lemma mgr_nextId_foldl_addSSTable [simp]:
  "mgr_nextId (foldl (\<lambda>m t. addSSTable m L t) m ts) = mgr_nextId m"
  by (induction ts arbitrary: m) simp_all

lemma createSSTable_tableOf:
  "createSSTable P m L es =
     (if sizable P es
      then (Inr (tableOf P (''sstable-'' @ decimal (mgr_nextId m)) L es),
            addSSTable (m\<lparr>mgr_nextId := mgr_nextId m + 1\<rparr>) L
              (tableOf P (''sstable-'' @ decimal (mgr_nextId m)) L es))
      else (Inl TypeError, m\<lparr>mgr_nextId := mgr_nextId m + 1\<rparr>))"
  by (simp add: createSSTable_def Let_def SSTable_new_tableOf)

lemma fst_createSSTable:
  "fst (createSSTable P m L es) =
     (if sizable P es then Inr (tableOf P (''sstable-'' @ decimal (mgr_nextId m)) L es)
      else Inl TypeError)"
  by (simp add: createSSTable_tableOf)

lemma getLevel_nextId_update [simp]: "getLevel (m\<lparr>mgr_nextId := n\<rparr>) L = getLevel m L"
  by (simp add: getLevel_def)

lemma getLevel_createSSTable:
  "getLevel (snd (createSSTable P m L es)) L'
     = (if L' = L \<and> sizable P es
        then getLevel m L @ [tableOf P (''sstable-'' @ decimal (mgr_nextId m)) L es]
        else getLevel m L')"
  by (simp add: createSSTable_tableOf getLevel_addSSTable)

section \<open>Properties of the compaction\<close>

lemma compactLevel_empty:
  "getLevel mgr src = [] \<Longrightarrow>
   compactLevel P src tgt mgr cmp = (Inr (Failure (''No SSTables at level '' @ decimal src)), mgr, cmp)"
  by (simp add: compactLevel_def)

lemma compactLevel_unfold:
  "compactLevel P src tgt m c =
     (if getLevel m src = []
      then (Inr (Failure (''No SSTables at level '' @ decimal src)), m, c)
      else (case kWayMerge (compactInputs m src tgt) of
              Inl e \<Rightarrow> (Inl e, m, c)
            | Inr (es, st) \<Rightarrow>
                (if sizable P es
                 then (Inr (Success (compactRecord c src tgt (length (compactInputs m src tgt))
                                 (sum_list (map sst_size (compactInputs m src tgt))) (length es) st)),
                       snd (createSSTable P (compactPrepared m src tgt) tgt es),
                       c\<lparr>cmp_compactionHistory := cmp_compactionHistory c @
                             [compactRecord c src tgt (length (compactInputs m src tgt))
                                (sum_list (map sst_size (compactInputs m src tgt))) (length es) st],
                         cmp_totalCompactions := cmp_totalCompactions c + 1,
                         cmp_totalBytesCompacted := cmp_totalBytesCompacted c
                             + sum_list (map sst_size (compactInputs m src tgt))\<rparr>)
                 else (Inl TypeError, snd (createSSTable P (compactPrepared m src tgt) tgt es), c))))"
  by (simp add: compactLevel_def compactInputs_def compactPrepared_def compactRecord_def Let_def
      split_beta fst_createSSTable split: sum.splits)

lemma compactLevel_failure:
  "compactLevel P src tgt mgr cmp = (Inr (Failure msg), mgr', cmp') \<Longrightarrow> mgr' = mgr \<and> cmp' = cmp"
  by (simp add: compactLevel_unfold split: if_splits sum.splits prod.splits)

lemma getLevel_compactPrepared:
  "getLevel (compactPrepared m src tgt) L =
     (if L = tgt
      then filter (\<lambda>s. s \<notin> set (findOverlappingSSTables (getLevel m src) (getLevel m tgt)))
             (getLevel m tgt)
      else if L = src then [] else getLevel m L)"
  by (simp add: compactPrepared_def getLevel_foldl_addSSTable getLevel_clearLevel)

lemma mgr_nextId_compactPrepared [simp]: "mgr_nextId (compactPrepared m src tgt) = mgr_nextId m"
  by (simp add: compactPrepared_def)

lemma compactLevel_merged:
  assumes "getLevel mgr src \<noteq> []"
    and "kWayMerge (getLevel mgr src @ findOverlappingSSTables (getLevel mgr src) (getLevel mgr tgt))
           = Inr (merged, st)"
    and "sizable P merged"
  shows "\<exists>r mgr' cmp'. compactLevel P src tgt mgr cmp = (Inr (Success r), mgr', cmp') \<and>
           c_sourceLevel r = src \<and> c_targetLevel r = tgt \<and>
           c_outputSSTables r = 1 \<and> c_mergeStats r = st \<and>
           cmp_compactionHistory cmp' = cmp_compactionHistory cmp @ [r] \<and>
           cmp_totalCompactions cmp' = cmp_totalCompactions cmp + 1 \<and>
           (\<forall>L. getLevel mgr' L =
              (if L = tgt
               then filter (\<lambda>s. s \<notin> set (findOverlappingSSTables (getLevel mgr src) (getLevel mgr tgt)))
                      (getLevel mgr tgt)
                    @ [tableOf P (''sstable-'' @ decimal (mgr_nextId mgr)) tgt merged]
               else if L = src then [] else getLevel mgr L))"
  using assms
  by (simp add: compactLevel_unfold compactInputs_def compactRecord_def getLevel_createSSTable
      getLevel_compactPrepared)

lemma compactLevel_success:
  assumes "compactLevel P src tgt mgr cmp = (Inr (Success r), mgr', cmp')"
  shows "getLevel mgr src \<noteq> [] \<and>
         c_sourceLevel r = src \<and> c_targetLevel r = tgt \<and>
         cmp_compactionHistory cmp' = cmp_compactionHistory cmp @ [r] \<and>
         cmp_totalCompactions cmp' = cmp_totalCompactions cmp + 1 \<and>
         (\<exists>merged. sizable P merged \<and> (\<forall>L. getLevel mgr' L =
              (if L = tgt
               then filter (\<lambda>s. s \<notin> set (findOverlappingSSTables (getLevel mgr src) (getLevel mgr tgt)))
                      (getLevel mgr tgt)
                    @ [tableOf P (''sstable-'' @ decimal (mgr_nextId mgr)) tgt merged]
               else if L = src then [] else getLevel mgr L)))"
proof -
  from assms have ne: "getLevel mgr src \<noteq> []"
    by (auto simp add: compactLevel_unfold split: if_splits)
  from assms ne obtain merged st where
    m: "kWayMerge (getLevel mgr src @ findOverlappingSSTables (getLevel mgr src) (getLevel mgr tgt))
       = Inr (merged, st)" "sizable P merged"
    by (auto simp add: compactLevel_unfold compactInputs_def split: sum.splits prod.splits if_splits)
  from compactLevel_merged [OF ne m, of cmp] assms ne m(2) show ?thesis by auto
qed

lemma threshold_pos: "0 < threshold L"
  by (simp add: threshold_def)

lemma autoCompactionLoop_post:
  assumes "autoCompactionLoop P ls mgr cmp res = (Inr out, mgr', cmp')"
    and "sorted_wrt (<) ls"
  shows "(\<forall>L \<in> set ls. length (getLevel mgr' L) < threshold L) \<and>
         (\<forall>L'. (\<forall>L \<in> set ls. L' < L) \<longrightarrow> getLevel mgr' L' = getLevel mgr L')"
  using assms
proof (induction ls arbitrary: mgr cmp res)
  case Nil
  then show ?case by simp
next
  case (Cons L rest)
  from Cons.prems(2) have srt: "sorted_wrt (<) rest" and lt: "\<forall>L' \<in> set rest. L < L'" by simp_all
  show ?case
  proof (cases "shouldCompact mgr L")
    case False
    with Cons.prems(1) have loop: "autoCompactionLoop P rest mgr cmp res = (Inr out, mgr', cmp')"
      by simp
    from Cons.IH [OF loop srt] lt False show ?thesis
      by (auto simp add: shouldCompact_def)
  next
    case True
    obtain o1 mgr1 cmp1 where c: "compactLevel P L (L + 1) mgr cmp = (o1, mgr1, cmp1)"
      by (cases "compactLevel P L (L + 1) mgr cmp") auto
    show ?thesis
    proof (cases o1)
      case (Inl e)
      with Cons.prems(1) True c show ?thesis by simp
    next
      case (Inr cr)
      show ?thesis
      proof (cases cr)
        case (Failure msg)
        with Inr c have "getLevel mgr L = []"
          by (auto simp add: compactLevel_def Let_def split: if_splits sum.splits prod.splits)
        with True show ?thesis using threshold_pos [of L] by (simp add: shouldCompact_def)
      next
        case (Success r)
        with Inr c have c': "compactLevel P L (L + 1) mgr cmp = (Inr (Success r), mgr1, cmp1)"
          by simp
        from compactLevel_success [OF c'] have
          lv: "getLevel mgr1 L = []" "\<And>L'. L' < L \<Longrightarrow> getLevel mgr1 L' = getLevel mgr L'"
          by auto
        from Cons.prems(1) True c' have
          loop: "autoCompactionLoop P rest mgr1 cmp1 (res @ [r]) = (Inr out, mgr', cmp')"
          by simp
        from Cons.IH [OF loop srt] have
          ih: "\<forall>L \<in> set rest. length (getLevel mgr' L) < threshold L"
              "\<And>L'. (\<forall>L \<in> set rest. L' < L) \<Longrightarrow> getLevel mgr' L' = getLevel mgr1 L'"
          by auto
        from ih(2) [of L] lt lv(1) have "getLevel mgr' L = []" by simp
        moreover have "getLevel mgr' L' = getLevel mgr L'" if "\<forall>K \<in> set (L # rest). L' < K" for L'
          using that ih(2) [of L'] lv(2) [of L'] by simp
        ultimately show ?thesis using ih(1) threshold_pos [of L] by simp
      qed
    qed
  qed
qed

lemma runAutoCompaction_post:
  assumes "runAutoCompaction P mgr cmp = (Inr out, mgr', cmp')" and "L < 3"
  shows "length (getLevel mgr' L) < threshold L"
proof -
  from assms(1) have "autoCompactionLoop P [0, 1, 2] mgr cmp [] = (Inr out, mgr', cmp')"
    by (simp add: runAutoCompaction_def)
  from autoCompactionLoop_post [OF this] have "\<forall>L \<in> set [0, 1, 2::nat]. length (getLevel mgr' L) < threshold L"
    by simp
  moreover from assms(2) have "L \<in> set [0, 1, 2::nat]" by auto
  ultimately show ?thesis by blast
qed

lemma LSMTree_put_post:
  assumes "LSMTree_put P e s key val = (Inr r, s')" and "L < 3"
  shows "length (getLevel (sstableManager s') L) < threshold L"
proof -
  obtain ir mt where ins: "SkipList_insert e (memtable s) key val = (ir, mt)"
    by (cases "SkipList_insert e (memtable s) key val") auto
  define s1 where "s1 = s\<lparr>memtable := mt, stats := (stats s)\<lparr>totalWrites := totalWrites (stats s) + 1\<rparr>\<rparr>"
  obtain fr s2 where fl: "(if sl_size (memtable s1) \<ge> memtableThreshold s1
                               then flushMemtable P s1 else (Inr None, s1)) = (fr, s2)"
    by (cases "(if sl_size (memtable s1) \<ge> memtableThreshold s1
                               then flushMemtable P s1 else (Inr None, s1))") auto
  obtain oc mgr cmp where ac: "runAutoCompaction P (sstableManager s2) (compaction s2) = (oc, mgr, cmp)"
    by (cases "runAutoCompaction P (sstableManager s2) (compaction s2)") auto
  from assms(1) ins fl ac obtain out where oc: "oc = Inr out" and s': "sstableManager s' = mgr"
    by (auto simp add: LSMTree_put_def Let_def s1_def split: sum.splits if_splits)
  from runAutoCompaction_post [OF ac [unfolded oc] assms(2)] s' show ?thesis by simp
qed

lemma LSMTree_delete_frame:
  "compaction (snd (LSMTree_delete P e s key)) = compaction s \<and>
   totalCompactions (stats (snd (LSMTree_delete P e s key))) = totalCompactions (stats s) \<and>
   (\<forall>L>0. getLevel (sstableManager (snd (LSMTree_delete P e s key))) L = getLevel (sstableManager s) L)"
  by (auto simp add: LSMTree_delete_def Let_def flushMemtable_def split_beta getLevel_createSSTable
      fst_createSSTable split: sum.splits)

section \<open>Properties of SkipList\<close>

lemma advance_level0:
  "advance 0 key ns = dropWhile (\<lambda>n. n_key n < key) ns"
proof (induction ns)
  case Nil
  show ?case by (subst advance.simps) simp
next
  case (Cons n ns)
  then show ?case by (subst advance.simps) simp
qed

lemma advance_suffix:
  assumes "sorted (map n_key ns)"
  shows "\<exists>pre. ns = pre @ advance i key ns \<and> (\<forall>n \<in> set pre. n_key n < key)"
  using assms
proof (induction i key ns rule: advance.induct)
  case (1 i key following)
  show ?case
  proof (cases "dropWhile (\<lambda>n. n_level n < i) following")
    case Nil
    have "advance i key following = following"
      by (subst advance.simps, subst Nil) simp
    then show ?thesis by simp
  next
    case (Cons forward beyond)
    show ?thesis
    proof (cases "n_key forward < key")
      case False
      with Cons have "advance i key following = following" by (subst advance.simps) simp
      then show ?thesis by simp
    next
      case True
      with Cons have adv: "advance i key following = advance i key beyond"
        by (subst advance.simps) simp
      let ?skipped = "takeWhile (\<lambda>n. n_level n < i) following"
      have split: "following = ?skipped @ forward # beyond"
        using Cons takeWhile_dropWhile_id [of "\<lambda>n. n_level n < i" following] by simp
      have srt: "sorted (map n_key (?skipped @ forward # beyond))"
        using 1(2) split by simp
      then have sb: "sorted (map n_key beyond)"
        by (simp add: sorted_append)
      from srt have low: "\<forall>n \<in> set ?skipped. n_key n \<le> n_key forward"
        by (auto simp add: sorted_append)
      from 1(1) [OF Cons True sb] obtain pre where
        pre: "beyond = pre @ advance i key beyond" "\<forall>n \<in> set pre. n_key n < key"
        by blast
      have "following = (?skipped @ forward # pre) @ advance i key following"
        using split pre(1) adv by simp
      moreover have "\<forall>n \<in> set (?skipped @ forward # pre). n_key n < key"
        using low True pre(2) by auto
      ultimately show ?thesis by blast
    qed
  qed
qed

lemma dropWhile_advance:
  assumes "sorted (map n_key ns)"
  shows "dropWhile (\<lambda>n. n_key n < key) (advance i key ns) = dropWhile (\<lambda>n. n_key n < key) ns"
    and "sorted (map n_key (advance i key ns))"
proof -
  from advance_suffix [OF assms, of i key] obtain pre where
    pre: "ns = pre @ advance i key ns" "\<forall>n \<in> set pre. n_key n < key" by blast
  have "dropWhile (\<lambda>n. n_key n < key) (pre @ advance i key ns)
          = dropWhile (\<lambda>n. n_key n < key) (advance i key ns)"
    using pre(2) by (simp add: dropWhile_append)
  with pre(1) show "dropWhile (\<lambda>n. n_key n < key) (advance i key ns)
      = dropWhile (\<lambda>n. n_key n < key) ns" by simp
  from assms pre(1) show "sorted (map n_key (advance i key ns))"
    by (metis map_append sorted_append)
qed

lemma descend_sorted:
  "sorted (map n_key ns) \<Longrightarrow> descend i key ns = dropWhile (\<lambda>n. n_key n < key) ns"
proof (induction i arbitrary: ns)
  case 0
  show ?case by (simp add: advance_level0)
next
  case (Suc i)
  from dropWhile_advance [OF Suc.prems, where key = key and i = "Suc i"]
    Suc.IH [of "advance (Suc i) key ns"]
  show ?case by simp
qed

lemma take_length_dropWhile:
  "take (length ns - length (dropWhile P ns)) ns = takeWhile P ns"
proof (induction ns)
  case Nil
  show ?case by simp
next
  case (Cons x xs)
  have "length (dropWhile P xs) \<le> length xs" by (rule length_dropWhile_le)
  then have "Suc (length xs) - length (dropWhile P xs) = Suc (length xs - length (dropWhile P xs))"
    by (rule Suc_diff_le)
  with Cons show ?case by simp
qed

lemma SkipList_insert_unfold:
  assumes "sorted (map n_key (sl_nodes sl))"
  shows "SkipList_insert e sl key val =
     (case dropWhile (\<lambda>n. n_key n < key) (sl_nodes sl) of
        [] \<Rightarrow>
          (\<lparr>ir_operation = ''INSERT'', ir_key = key, ir_size = sl_size sl + 1\<rparr>,
           sl\<lparr>sl_level := max (sl_level sl) (randomLevel sl (random e)),
              sl_nodes := takeWhile (\<lambda>n. n_key n < key) (sl_nodes sl)
                 @ [\<lparr>n_key = key, n_value = val, n_level = randomLevel sl (random e),
                     n_timestamp = now e\<rparr>],
              sl_size := sl_size sl + 1\<rparr>)
      | current # beyond \<Rightarrow>
          if n_key current = key
          then (\<lparr>ir_operation = ''UPDATE'', ir_key = key, ir_size = sl_size sl\<rparr>,
                sl\<lparr>sl_nodes := takeWhile (\<lambda>n. n_key n < key) (sl_nodes sl)
                     @ current\<lparr>n_value := val, n_timestamp := now e\<rparr> # beyond\<rparr>)
          else (\<lparr>ir_operation = ''INSERT'', ir_key = key, ir_size = sl_size sl + 1\<rparr>,
                sl\<lparr>sl_level := max (sl_level sl) (randomLevel sl (random e)),
                   sl_nodes := takeWhile (\<lambda>n. n_key n < key) (sl_nodes sl)
                      @ \<lparr>n_key = key, n_value = val, n_level = randomLevel sl (random e),
                          n_timestamp = now e\<rparr> # current # beyond,
                   sl_size := sl_size sl + 1\<rparr>))"
proof -
  have d: "descend (sl_level sl) key (sl_nodes sl) = dropWhile (\<lambda>n. n_key n < key) (sl_nodes sl)"
    using assms by (rule descend_sorted)
  have t: "take (length (sl_nodes sl) - length (dropWhile (\<lambda>n. n_key n < key) (sl_nodes sl)))
             (sl_nodes sl) = takeWhile (\<lambda>n. n_key n < key) (sl_nodes sl)"
    by (rule take_length_dropWhile)
  show ?thesis
    unfolding SkipList_insert_def d Let_def t
    by (cases "dropWhile (\<lambda>n. n_key n < key) (sl_nodes sl)")
       (simp_all del: dropWhile_eq_Nil_conv)
qed

lemma pairs_take_drop:
  "pairs (takeWhile (\<lambda>n. n_key n < k) ns @ rest)
     = takeWhile (\<lambda>p. fst p < k) (pairs ns) @ pairs rest"
  by (simp add: pairs_def takeWhile_map comp_def)

lemma upsert_split:
  "upsert k v ps =
     takeWhile (\<lambda>p. fst p < k) ps @
     (case dropWhile (\<lambda>p. fst p < k) ps of
        [] \<Rightarrow> [(k, v)]
      | c # beyond \<Rightarrow> if fst c = k then (k, v) # beyond else (k, v) # c # beyond)"
  by (induction ps) auto

lemma SkipList_insert_sorted:
  assumes "sorted (map n_key (sl_nodes sl))"
  shows "pairs (sl_nodes (snd (SkipList_insert e sl key val))) = upsert key val (pairs (sl_nodes sl))"
    and "ir_operation (fst (SkipList_insert e sl key val))
           = (if key \<in> fst ` set (pairs (sl_nodes sl)) then ''UPDATE'' else ''INSERT'')"
    and "sl_size (snd (SkipList_insert e sl key val))
           = (if key \<in> fst ` set (pairs (sl_nodes sl)) then sl_size sl else sl_size sl + 1)"
    and "ir_size (fst (SkipList_insert e sl key val)) = sl_size (snd (SkipList_insert e sl key val))"
    and "ir_key (fst (SkipList_insert e sl key val)) = key"
    and "sl_maxLevel (snd (SkipList_insert e sl key val)) = sl_maxLevel sl"
    and "sl_probability (snd (SkipList_insert e sl key val)) = sl_probability sl"
proof -
  let ?ns = "sl_nodes sl"
  let ?P = "\<lambda>n. n_key n < key"
  have mem: "key \<in> fst ` set (pairs ?ns) \<longleftrightarrow>
     (case dropWhile ?P ?ns of [] \<Rightarrow> False | c # beyond \<Rightarrow> n_key c = key)"
  proof (cases "dropWhile ?P ?ns")
    case Nil
    then have "\<forall>n \<in> set ?ns. n_key n < key" by simp
    then have "key \<notin> fst ` set (pairs ?ns)" by (auto simp add: pairs_def)
    then show ?thesis unfolding Nil by simp
  next
    case (Cons c beyond)
    have split: "?ns = takeWhile ?P ?ns @ c # beyond"
      using Cons takeWhile_dropWhile_id [of ?P ?ns] by simp
    have c: "\<not> n_key c < key" using Cons by (metis hd_dropWhile list.sel(1) list.distinct(1))
    have srt: "sorted (map n_key (takeWhile ?P ?ns @ c # beyond))" using assms split by simp
    then have ge: "\<forall>n \<in> set beyond. n_key c \<le> n_key n" by (auto simp add: sorted_append)
    have lt: "\<forall>n \<in> set (takeWhile ?P ?ns). n_key n < key" by (auto dest: set_takeWhileD)
    have "key \<in> n_key ` set ?ns \<longleftrightarrow> n_key c = key"
    proof
      assume "key \<in> n_key ` set ?ns"
      then obtain n where n: "n \<in> set ?ns" "n_key n = key" by auto
      with split have "n \<in> set (takeWhile ?P ?ns) \<or> n = c \<or> n \<in> set beyond"
        by (metis Un_iff set_append set_ConsD)
      with lt ge c n show "n_key c = key" by auto
    next
      assume "n_key c = key"
      with split show "key \<in> n_key ` set ?ns" by (metis image_eqI in_set_conv_decomp)
    qed
    with Cons show ?thesis by (auto simp add: pairs_def image_image)
  qed
  note u = SkipList_insert_unfold [OF assms, of e key val]
  show "pairs (sl_nodes (snd (SkipList_insert e sl key val))) = upsert key val (pairs ?ns)"
    unfolding upsert_split u
    by (cases "dropWhile ?P ?ns")
       (simp_all add: pairs_def takeWhile_map dropWhile_map comp_def del: dropWhile_eq_Nil_conv)
  show "ir_operation (fst (SkipList_insert e sl key val))
           = (if key \<in> fst ` set (pairs ?ns) then ''UPDATE'' else ''INSERT'')"
    unfolding mem u by (cases "dropWhile ?P ?ns") (simp_all del: dropWhile_eq_Nil_conv)
  show "sl_size (snd (SkipList_insert e sl key val))
           = (if key \<in> fst ` set (pairs ?ns) then sl_size sl else sl_size sl + 1)"
    unfolding mem u by (cases "dropWhile ?P ?ns") (simp_all del: dropWhile_eq_Nil_conv)
  show "ir_size (fst (SkipList_insert e sl key val)) = sl_size (snd (SkipList_insert e sl key val))"
    unfolding u by (cases "dropWhile ?P ?ns") (simp_all del: dropWhile_eq_Nil_conv)
  show "ir_key (fst (SkipList_insert e sl key val)) = key"
    unfolding u by (cases "dropWhile ?P ?ns") (simp_all del: dropWhile_eq_Nil_conv)
  show "sl_maxLevel (snd (SkipList_insert e sl key val)) = sl_maxLevel sl"
    unfolding u by (cases "dropWhile ?P ?ns") (simp_all del: dropWhile_eq_Nil_conv)
  show "sl_probability (snd (SkipList_insert e sl key val)) = sl_probability sl"
    unfolding u by (cases "dropWhile ?P ?ns") (simp_all del: dropWhile_eq_Nil_conv)
qed

lemma sorted_upsert: "sorted (map fst ps) \<Longrightarrow> sorted (map fst (upsert k v ps))"
proof (induction ps)
  case Nil
  then show ?case by simp
next
  case (Cons p ps)
  have "fst p < k \<Longrightarrow> \<forall>q \<in> set (upsert k v ps). fst p \<le> fst q"
    using Cons.prems by (induction ps) (auto split: if_splits)
  with Cons show ?case by (auto simp add: less_imp_le)
qed

lemma map_fst_pairs: "map fst (pairs ns) = map n_key ns"
  by (simp add: pairs_def comp_def)

lemma SkipList_insert_keeps_sorted:
  assumes "sorted (map n_key (sl_nodes sl))"
  shows "sorted (map n_key (sl_nodes (snd (SkipList_insert e sl key val))))"
proof -
  have "sorted (map fst (upsert key val (pairs (sl_nodes sl))))"
    using assms by (intro sorted_upsert) (simp add: map_fst_pairs)
  then show ?thesis
    using SkipList_insert_sorted(1) [OF assms, of e key val] by (simp add: map_fst_pairs [symmetric])
qed

lemma SkipList_search_sorted:
  assumes "sorted (map n_key (sl_nodes sl))"
  shows "SkipList_search sl key =
     (case dropWhile (\<lambda>p. fst p < key) (pairs (sl_nodes sl)) of
        [] \<Rightarrow> \<lparr>l_found = False, l_value = None\<rparr>
      | c # beyond \<Rightarrow> if fst c = key then \<lparr>l_found = True, l_value = snd c\<rparr>
                       else \<lparr>l_found = False, l_value = None\<rparr>)"
  by (cases "dropWhile (\<lambda>n. n_key n < key) (sl_nodes sl)")
     (simp_all add: SkipList_search_def descend_sorted [OF assms] pairs_def dropWhile_map comp_def
        del: dropWhile_eq_Nil_conv)

section \<open>Erasing timestamps\<close>

lemma noTime_simps [simp]:
  "e_key (noTime e) = e_key e" "e_value (noTime e) = e_value e" "e_timestamp (noTime e) = 0"
  by (simp_all add: noTime_def)

lemma er_sst_simps [simp]:
  "sst_id (er_sst t) = sst_id t" "sst_level (er_sst t) = sst_level t"
  "sst_entries (er_sst t) = map noTime (sst_entries t)"
  "sst_bloomFilter (er_sst t) = sst_bloomFilter t"
  "sst_sparseIndex (er_sst t) = sst_sparseIndex t"
  "sst_size (er_sst t) = sst_size t" "sst_keyRange (er_sst t) = sst_keyRange t"
  by (simp_all add: er_sst_def)

lemma insort_key_map_same:
  assumes "\<And>x. f (g x) = f x"
  shows "insort_key f (g x) (map g ys) = map g (insort_key f x ys)"
  by (induction ys) (simp_all add: assms)

lemma sort_key_map_same:
  assumes "\<And>x. f (g x) = f x"
  shows "sort_key f (map g xs) = map g (sort_key f xs)"
  by (induction xs)
     (simp_all add: sort_key_simps insort_key_map_same [where f = f and g = g, OF assms])

lemma sort_key_noTime: "sort_key e_key (map noTime es) = map noTime (sort_key e_key es)"
  by (rule sort_key_map_same) simp

lemma buildBloomFilter_noTime: "buildBloomFilter P (map noTime es) = buildBloomFilter P es"
  by (simp add: buildBloomFilter_def comp_def)

lemma buildSparseIndex_noTime: "buildSparseIndex (map noTime es) step = buildSparseIndex es step"
proof -
  have "length es - 1 < length es" if "length es mod step \<noteq> 0"
    using that by (cases "length es") auto
  then show ?thesis
    by (auto simp add: buildSparseIndex_def Let_def)
qed

lemma entriesSize_noTime: "entriesSize P (map noTime es) n = entriesSize P es n"
  by (induction es arbitrary: n) (simp_all split: sum.splits)

lemma calculateSize_noTime: "calculateSize P (map noTime es) bf idx = calculateSize P es bf idx"
  by (simp add: calculateSize_def entriesSize_noTime)

lemma sizable_noTime [simp]: "sizable P (map noTime es) = sizable P es"
  by (simp add: sizable_def list_all_iff)

lemma getKeyRange_noTime: "getKeyRange (map noTime es) = getKeyRange es"
proof (cases "length es = 0")
  case True
  then show ?thesis by (simp add: getKeyRange_def)
next
  case False
  then have "0 < length es" "length es - 1 < length es" by simp_all
  then have "e_key (map noTime es ! 0) = e_key (es ! 0)"
    and "e_key (map noTime es ! (length es - 1)) = e_key (es ! (length es - 1))"
    by (simp_all only: nth_map noTime_simps)
  with False show ?thesis by (simp add: getKeyRange_def)
qed

lemma tableOf_noTime: "tableOf P i l (map noTime es) = er_sst (tableOf P i l es)"
  by (simp add: tableOf_def Let_def er_sst_def sort_key_noTime buildBloomFilter_noTime
      buildSparseIndex_noTime calculateSize_noTime getKeyRange_noTime)

lemma binarySearch_noTime: "binarySearch (map noTime es) key l r = binarySearch es key l r"
proof (induction es key l r rule: binarySearch.induct)
  case (1 es key left right)
  show ?case
  proof (cases "left \<le> right")
    case False
    then show ?thesis by (subst binarySearch.simps, subst (2) binarySearch.simps) simp
  next
    case True
    define mid where "mid = (left + right) div 2"
    show ?thesis
    proof (cases "mid < 0 \<or> int (length es) \<le> mid")
      case out: True
      with True show ?thesis
        by (subst binarySearch.simps, subst (2) binarySearch.simps) (simp add: mid_def Let_def)
    next
      case inside: False
      then have n: "nat mid < length es" by (simp add: nat_less_iff)
      show ?thesis
      proof (cases "e_key (es ! nat mid) = key")
        case eq: True
        with True inside n show ?thesis
          by (subst binarySearch.simps, subst (2) binarySearch.simps)
             (simp add: mid_def [symmetric] Let_def)
      next
        case neq: False
        show ?thesis
        proof (cases "key < e_key (es ! nat mid)")
          case lt: True
          from 1(1) [OF True mid_def inside refl neq lt] True inside n neq lt show ?thesis
            by (subst binarySearch.simps, subst (2) binarySearch.simps)
               (simp add: mid_def [symmetric] Let_def)
        next
          case ge: False
          from 1(2) [OF True mid_def inside refl neq ge] True inside n neq ge show ?thesis
            by (subst binarySearch.simps, subst (2) binarySearch.simps)
               (simp add: mid_def [symmetric] Let_def)
        qed
      qed
    qed
  qed
qed

lemma SSTable_get_er: "SSTable_get (er_sst t) key = SSTable_get t key"
  by (simp add: SSTable_get_def binarySearch_noTime split: prod.splits)

lemma containsKeyInRange_er: "containsKeyInRange (er_sst t) key = containsKeyInRange t key"
  by (simp add: containsKeyInRange_def)

lemma searchTables_er:
  "searchTables level (map er_sst ts) key path = searchTables level ts key path"
proof (induction ts arbitrary: path)
  case Nil
  show ?case by simp
next
  case (Cons t ts)
  then show ?case
    by (cases "0 < level"; cases "containsKeyInRange t key"; cases "SSTable_get t key")
       (simp_all add: containsKeyInRange_er SSTable_get_er Let_def)
qed

lemma map_of_er:
  "map_of (map (\<lambda>(l, ts). (l, map er_sst ts)) levels) L = map_option (map er_sst) (map_of levels L)"
  by (induction levels) auto

lemma getLevel_er: "getLevel (er_mgr m) L = map er_sst (getLevel m L)"
  by (simp add: getLevel_def er_mgr_def map_of_er split: option.splits)

lemma searchLevels_er: "searchLevels (er_mgr m) ls key path = searchLevels m ls key path"
  by (induction ls arbitrary: path)
     (simp_all add: getLevel_er searchTables_er split: sum.splits prod.splits option.splits)

lemma map_fst_er: "map fst (map (\<lambda>(l, ts). (l, map er_sst ts)) levels) = map fst levels"
  by (induction levels) auto

lemma SSTableManager_search_er: "SSTableManager_search (er_mgr m) key = SSTableManager_search m key"
  by (simp add: SSTableManager_search_def searchLevels_er)
     (simp add: er_mgr_def comp_def case_prod_unfold)

lemma Map_set_er:
  "Map_set L (map er_sst ts) (map (\<lambda>(l, ts). (l, map er_sst ts)) levels)
     = map (\<lambda>(l, ts). (l, map er_sst ts)) (Map_set L ts levels)"
  by (induction levels) auto

lemma clearLevel_er: "clearLevel (er_mgr m) L = er_mgr (clearLevel m L)"
  using Map_set_er [of L "[]" "mgr_levels m"] by (simp add: clearLevel_def er_mgr_def)

lemma addSSTable_er: "addSSTable (er_mgr m) L (er_sst t) = er_mgr (addSSTable m L t)"
proof -
  have a: "Map_set L [] (map (\<lambda>(l, ts). (l, map er_sst ts)) levels)
     = map (\<lambda>(l, ts). (l, map er_sst ts)) (Map_set L [] levels)" for levels :: "(nat \<times> 'a SSTable list) list"
    using Map_set_er [of L "[]" levels] by simp
  have b: "Map_set L (map er_sst ts @ [er_sst t]) (map (\<lambda>(l, ts). (l, map er_sst ts)) levels)
     = map (\<lambda>(l, ts). (l, map er_sst ts)) (Map_set L (ts @ [t]) levels)"
    for levels :: "(nat \<times> 'a SSTable list) list" and ts
    using Map_set_er [of L "ts @ [t]" levels] by simp
  have c: "Map_set L [er_sst t] (map (\<lambda>(l, ts). (l, map er_sst ts)) levels)
     = map (\<lambda>(l, ts). (l, map er_sst ts)) (Map_set L [t] levels)"
    for levels :: "(nat \<times> 'a SSTable list) list"
    using Map_set_er [of L "[t]" levels] by simp
  show ?thesis
    by (cases "map_of (mgr_levels m) L")
       (simp_all add: addSSTable_def er_mgr_def Let_def map_of_er a b c map_of_Map_set)
qed

lemma foldl_addSSTable_er:
  "foldl (\<lambda>m t. addSSTable m L t) (er_mgr m) (map er_sst ts)
     = er_mgr (foldl (\<lambda>m t. addSSTable m L t) m ts)"
  by (induction ts arbitrary: m) (simp_all add: addSSTable_er)

lemma mgr_nextId_er [simp]: "mgr_nextId (er_mgr m) = mgr_nextId m"
  by (simp add: er_mgr_def)

lemma er_mgr_nextId_update: "er_mgr (m\<lparr>mgr_nextId := n\<rparr>) = (er_mgr m)\<lparr>mgr_nextId := n\<rparr>"
  by (simp add: er_mgr_def)

lemma createSSTable_er:
  "createSSTable P (er_mgr m) L (map noTime es)
     = (map_sum id er_sst (fst (createSSTable P m L es)), er_mgr (snd (createSSTable P m L es)))"
  by (simp add: createSSTable_tableOf tableOf_noTime addSSTable_er [symmetric]
      er_mgr_nextId_update)

lemma er_elem_simps [simp]:
  "h_key (er_elem x) = h_key x" "h_value (er_elem x) = h_value x"
  "h_timestamp (er_elem x) = 0" "h_iteratorIndex (er_elem x) = h_iteratorIndex x"
  by (simp_all add: er_elem_def)

lemma er_it_simps [simp]:
  "it_sstableId (er_it it) = it_sstableId it" "it_entries (er_it it) = map noTime (it_entries it)"
  "it_currentIndex (er_it it) = it_currentIndex it"
  by (simp_all add: er_it_def)

lemma swap_map: "i < length xs \<Longrightarrow> j < length xs \<Longrightarrow> swap (map f xs) i j = map f (swap xs i j)"
  by (simp add: swap_def map_update)

lemma bubbleUp_er:
  "index < length heap \<Longrightarrow> bubbleUp (map er_elem heap) index = map er_elem (bubbleUp heap index)"
proof (induction heap index rule: bubbleUp.induct)
  case (1 heap index)
  show ?case
  proof (cases "index > 0")
    case False
    then show ?thesis by (subst bubbleUp.simps, subst (2) bubbleUp.simps) simp
  next
    case True
    let ?p = "(index - 1) div 2"
    have p: "?p < length heap" using 1(2) by simp
    show ?thesis
    proof (cases "h_key (heap ! index) \<ge> h_key (heap ! ?p)")
      case ge: True
      with True p 1(2) show ?thesis
        by (subst bubbleUp.simps, subst (2) bubbleUp.simps) (simp add: Let_def)
    next
      case lt: False
      have "bubbleUp (map er_elem (swap heap index ?p)) ?p
              = map er_elem (bubbleUp (swap heap index ?p) ?p)"
        using 1(1) [OF True refl lt] p by simp
      with True p 1(2) lt show ?thesis
        by (subst bubbleUp.simps, subst (2) bubbleUp.simps) (simp add: Let_def swap_map)
    qed
  qed
qed

lemma smallestOf_er: "smallestOf (map er_elem heap) index = smallestOf heap index"
proof -
  have k: "h_key (map er_elem heap ! i) = h_key (heap ! i)" if "i < length heap" for i
    using that by simp
  show ?thesis
  proof (cases "index < length heap")
    case True
    then show ?thesis by (auto simp add: smallestOf_def Let_def k)
  next
    case False
    then show ?thesis by (simp add: smallestOf_def Let_def)
  qed
qed

lemma bubbleDown_er:
  "index < length heap \<Longrightarrow> bubbleDown (map er_elem heap) index = map er_elem (bubbleDown heap index)"
proof (induction heap index rule: bubbleDown.induct)
  case (1 heap index)
  define smallest where "smallest = smallestOf heap index"
  show ?case
  proof (cases "smallest = index")
    case True
    then show ?thesis
      by (subst bubbleDown.simps, subst (2) bubbleDown.simps)
         (simp add: smallestOf_er smallest_def [symmetric] Let_def)
  next
    case False
    with smallestOf_cases [of heap index] have s: "smallest < length heap"
      by (simp add: smallest_def)
    have "bubbleDown (map er_elem (swap heap index smallest)) smallest
            = map er_elem (bubbleDown (swap heap index smallest) smallest)"
      using 1(1) [OF smallest_def False] s by simp
    with False s 1(2) show ?thesis
      by (subst bubbleDown.simps, subst (2) bubbleDown.simps)
         (simp add: smallestOf_er smallest_def [symmetric] Let_def swap_map)
  qed
qed

lemma MinHeap_insert_er:
  "MinHeap_insert (map er_elem heap) (er_elem x) = map er_elem (MinHeap_insert heap x)"
  using bubbleUp_er [of "length heap" "heap @ [x]"] by (simp add: MinHeap_insert_def)

lemma extractMin_er:
  "extractMin (map er_elem heap)
     = (map_option er_elem (fst (extractMin heap)), map er_elem (snd (extractMin heap)))"
proof (cases "length heap = 0")
  case True
  then show ?thesis by (simp add: extractMin_def)
next
  case False
  then have ne: "heap \<noteq> []" by simp
  show ?thesis
  proof (cases "length heap = 1")
    case True
    with ne show ?thesis by (simp add: extractMin_def last_map map_butlast)
  next
    case many: False
    with False have "0 < length (butlast heap)" by (cases heap) auto
    then have "0 < length ((butlast heap)[0 := last heap])" by simp
    from bubbleDown_er [OF this] False many ne show ?thesis
      by (simp add: extractMin_def Let_def last_map map_butlast map_update)
  qed
qed

lemma mergeInit_er:
  "mergeInit (map er_sst ts) i (map er_it its) (map er_elem heap)
     = (map er_it (fst (mergeInit ts i its heap)), map er_elem (snd (mergeInit ts i its heap)))"
proof (induction ts arbitrary: i its heap)
  case Nil
  show ?case by simp
next
  case (Cons t ts)
  show ?case
  proof (cases "length (sst_entries t) > 0")
    case False
    with Cons show ?thesis by simp
  next
    case True
    let ?x = "\<lparr>h_key = e_key (sst_entries t ! 0), h_value = e_value (sst_entries t ! 0),
               h_timestamp = e_timestamp (sst_entries t ! 0), h_iteratorIndex = i\<rparr>"
    let ?it = "\<lparr>it_sstableId = sst_id t, it_entries = sst_entries t, it_currentIndex = 0\<rparr>"
    have x: "\<lparr>h_key = e_key (sst_entries t ! 0), h_value = e_value (sst_entries t ! 0),
              h_timestamp = 0, h_iteratorIndex = i\<rparr> = er_elem ?x"
      by (simp add: er_elem_def)
    have it: "\<lparr>it_sstableId = sst_id t, it_entries = map noTime (sst_entries t),
               it_currentIndex = 0\<rparr> = er_it ?it"
      by (simp add: er_it_def)
    from Cons [of "i + 1" "its @ [?it]" "MinHeap_insert heap ?x"] True show ?thesis
      by (simp add: Let_def x it MinHeap_insert_er del: nth_Cons_0)
  qed
qed

lemma mergeLoop_unfold:
  "mergeLoop heap its merged lastKey d =
     (if length heap > 0
      then (case mergeStep heap its merged lastKey d of
              Inl e \<Rightarrow> Inl e
            | Inr (heap', its', merged', lastKey', d') \<Rightarrow> mergeLoop heap' its' merged' lastKey' d')
      else Inr (merged, d))"
  by (subst mergeLoop.simps)
     (simp add: mergeStep_def Let_def split: prod.splits option.splits)

lemma mergeLoop_Nil: "mergeLoop [] its merged lastKey d = Inr (merged, d)"
  by (subst mergeLoop.simps) simp

lemma mergeStep_decreases:
  assumes "mergeStep heap its merged lastKey d = Inr (heap', its', merged', lastKey', d')"
    and "0 < length heap"
  shows "length heap' + remaining its' < length heap + remaining its"
proof -
  obtain x heap1 where ex: "extractMin heap = (x, heap1)" by (cases "extractMin heap") auto
  from assms(1) ex obtain m where m: "x = Some m" and i: "h_iteratorIndex m < length its"
    by (auto simp add: mergeStep_def split: option.splits if_splits)
  from ex have len: "length heap1 = length heap - 1" by (rule length_extractMin)
  let ?it = "(its ! h_iteratorIndex m)\<lparr>it_currentIndex := it_currentIndex (its ! h_iteratorIndex m) + 1\<rparr>"
  from assms(1) ex m i have its': "its' = its[h_iteratorIndex m := ?it]"
    by (simp add: mergeStep_def Let_def)
  show ?thesis
  proof (cases "it_currentIndex ?it < length (it_entries ?it)")
    case True
    with assms(1) ex m i have "length heap' = length heap1 + 1"
      by (auto simp add: mergeStep_def Let_def)
    moreover have "0 < remaining its" using remaining_pos [OF i] True by simp
    moreover have "remaining its' = remaining its - 1"
      using remaining_update [OF i] True its' by simp
    ultimately show ?thesis using len assms(2) by simp
  next
    case False
    with assms(1) ex m i have "heap' = heap1"
      by (auto simp add: mergeStep_def Let_def)
    moreover have "remaining its' \<le> remaining its"
      using remaining_update [OF i] its' by simp
    ultimately show ?thesis using len assms(2) by (cases heap) simp_all
  qed
qed

lemma er_it_update:
  "er_it (x\<lparr>it_currentIndex := c\<rparr>) = (er_it x)\<lparr>it_currentIndex := c\<rparr>"
  by (cases x) (simp add: er_it_def)

lemma mergeStep_er:
  "mergeStep (map er_elem heap) (map er_it its) (map noTime merged) lastKey d
     = er_step (mergeStep heap its merged lastKey d)"
proof -
  obtain x heap1 where ex: "extractMin heap = (x, heap1)" by (cases "extractMin heap") auto
  have ex': "extractMin (map er_elem heap) = (map_option er_elem x, map er_elem heap1)"
    using extractMin_er [of heap] ex by simp
  show ?thesis
  proof (cases x)
    case None
    with ex ex' show ?thesis by (simp add: mergeStep_def er_step_def)
  next
    case (Some m)
    show ?thesis
    proof (cases "length its \<le> h_iteratorIndex m")
      case True
      with ex ex' Some show ?thesis by (simp add: mergeStep_def er_step_def)
    next
      case False
      then have i: "h_iteratorIndex m < length its" by simp
      show ?thesis
        unfolding mergeStep_def er_step_def ex ex' Some
        using i
        by (simp add: Let_def map_update MinHeap_insert_er [symmetric] er_it_update)
           (simp add: er_elem_def noTime_def)
    qed
  qed
qed

lemma mergeLoop_er:
  "mergeLoop (map er_elem heap) (map er_it its) (map noTime merged) lastKey d
     = er_merged (mergeLoop heap its merged lastKey d)"
proof (induction "length heap + remaining its" arbitrary: heap its merged lastKey d rule: less_induct)
  case less
  note L = mergeLoop_unfold [of "map er_elem heap" "map er_it its" "map noTime merged" lastKey d]
    and R = mergeLoop_unfold [of heap its merged lastKey d]
  show ?case
  proof (cases "length heap > 0")
    case False
    then show ?thesis by (simp add: mergeLoop_Nil er_merged_def)
  next
    case True
    show ?thesis
    proof (cases "mergeStep heap its merged lastKey d")
      case (Inl e)
      with True show ?thesis by (simp add: L R mergeStep_er er_step_def er_merged_def)
    next
      case (Inr r)
      obtain heap' its' merged' lastKey' d' where r: "r = (heap', its', merged', lastKey', d')"
        by (cases r) auto
      from mergeStep_decreases [OF Inr [unfolded r] True]
      have "mergeLoop (map er_elem heap') (map er_it its') (map noTime merged') lastKey' d'
              = er_merged (mergeLoop heap' its' merged' lastKey' d')"
        by (rule less)
      with True Inr r show ?thesis by (simp add: L R mergeStep_er er_step_def)
    qed
  qed
qed

lemma kWayMerge_er:
  "kWayMerge (map er_sst ts)
     = (case kWayMerge ts of Inl e \<Rightarrow> Inl e | Inr (es, st) \<Rightarrow> Inr (map noTime es, st))"
proof -
  have init: "mergeInit (map er_sst ts) 0 [] []
     = (map er_it (fst (mergeInit ts 0 [] [])), map er_elem (snd (mergeInit ts 0 [] [])))"
    using mergeInit_er [of ts 0 "[]" "[]"] by simp
  have loop: "mergeLoop (map er_elem heap) (map er_it its) [] None 0
     = er_merged (mergeLoop heap its [] None 0)" for heap :: "'a heap_element list" and its
    using mergeLoop_er [of heap its "[]" None 0] by simp
  show ?thesis
    by (simp add: kWayMerge_def init loop split_beta er_merged_def comp_def
        split: sum.splits prod.splits)
qed

lemma findOverlappingSSTables_er:
  "findOverlappingSSTables (map er_sst src) (map er_sst tgt)
     = map er_sst (findOverlappingSSTables src tgt)"
  by (simp add: findOverlappingSSTables_def filter_map comp_def list_ex_iff)

lemma remainingTarget_filter:
  "filter (\<lambda>s. s \<notin> set (findOverlappingSSTables src tgt)) tgt
     = filter (\<lambda>target. \<not> list_ex (\<lambda>source. rangesOverlap (sst_keyRange source) (sst_keyRange target)) src) tgt"
  by (rule filter_cong) (auto simp add: findOverlappingSSTables_def)

lemma remainingTarget_er:
  "filter (\<lambda>s. s \<notin> set (findOverlappingSSTables (map er_sst src) (map er_sst tgt))) (map er_sst tgt)
     = map er_sst (filter (\<lambda>s. s \<notin> set (findOverlappingSSTables src tgt)) tgt)"
  unfolding remainingTarget_filter
  by (simp add: filter_map comp_def list_ex_iff)

lemma sst_size_comp_er: "sst_size \<circ> er_sst = sst_size"
  by (simp add: fun_eq_iff)

lemma er_out_simp [simp]: "er_out (outcome, mgr, cmp) = (outcome, er_mgr mgr, cmp)"
  by (simp add: er_out_def)

lemma compactInputs_er: "compactInputs (er_mgr m) src tgt = map er_sst (compactInputs m src tgt)"
  by (simp add: compactInputs_def getLevel_er findOverlappingSSTables_er)

lemma compactPrepared_er: "compactPrepared (er_mgr m) src tgt = er_mgr (compactPrepared m src tgt)"
  by (simp only: compactPrepared_def getLevel_er remainingTarget_er clearLevel_er
      foldl_addSSTable_er)

lemma compactLevel_er:
  "compactLevel P src tgt (er_mgr m) c = er_out (compactLevel P src tgt m c)"
proof (cases "getLevel m src = []")
  case True
  then show ?thesis by (simp add: compactLevel_unfold getLevel_er)
next
  case False
  note merge = kWayMerge_er [of "compactInputs m src tgt"]
  show ?thesis
  proof (cases "kWayMerge (compactInputs m src tgt)")
    case (Inl e)
    with False merge show ?thesis
      by (simp add: compactLevel_unfold getLevel_er compactInputs_er)
  next
    case (Inr r)
    obtain es st where r: "r = (es, st)" by (cases r) auto
    from False Inr r merge show ?thesis
      by (simp add: compactLevel_unfold getLevel_er compactInputs_er compactPrepared_er
          createSSTable_er sst_size_comp_er)
  qed
qed

lemma shouldCompact_er: "shouldCompact (er_mgr m) L = shouldCompact m L"
  by (simp add: shouldCompact_def getLevel_er)

lemma autoCompactionLoop_er:
  "autoCompactionLoop P ls (er_mgr m) c res = er_out (autoCompactionLoop P ls m c res)"
proof (induction ls arbitrary: m c res)
  case Nil
  show ?case by simp
next
  case (Cons L ls)
  show ?case
  proof (cases "shouldCompact m L")
    case False
    with Cons show ?thesis by (simp add: shouldCompact_er)
  next
    case True
    obtain o1 m1 c1 where c: "compactLevel P L (L + 1) m c = (o1, m1, c1)"
      by (cases "compactLevel P L (L + 1) m c") auto
    then have c': "compactLevel P L (L + 1) (er_mgr m) c = (o1, er_mgr m1, c1)"
      by (simp add: compactLevel_er)
    show ?thesis
    proof (cases o1)
      case (Inl e)
      with True c c' show ?thesis by (simp add: shouldCompact_er)
    next
      case (Inr cr)
      with True c c' Cons show ?thesis by (cases cr) (simp_all add: shouldCompact_er)
    qed
  qed
qed

lemma runAutoCompaction_er:
  "runAutoCompaction P (er_mgr m) c = er_out (runAutoCompaction P m c)"
  by (simp add: runAutoCompaction_def autoCompactionLoop_er)

section \<open>Runs that differ in time and in random levels\<close>

lemma alike_sym: "alike s1 s2 \<Longrightarrow> alike s2 s1"
  by (simp add: alike_def)

lemma getAllEntries_noTime:
  "map noTime (getAllEntries sl)
     = map (\<lambda>(k, v). \<lparr>e_key = k, e_value = v, e_timestamp = 0\<rparr>) (pairs (sl_nodes sl))"
  by (simp add: getAllEntries_def pairs_def noTime_def comp_def)

lemma er_mgr_eq_nextId: "er_mgr m1 = er_mgr m2 \<Longrightarrow> mgr_nextId m1 = mgr_nextId m2"
  by (metis mgr_nextId_er)

lemma createSSTable_alike:
  assumes "er_mgr m1 = er_mgr m2" and "map noTime es1 = map noTime es2"
  shows "er_mgr (snd (createSSTable P m1 L es1)) = er_mgr (snd (createSSTable P m2 L es2))"
    and "map_sum id sst_id (fst (createSSTable P m1 L es1))
           = map_sum id sst_id (fst (createSSTable P m2 L es2))"
proof -
  have "createSSTable P (er_mgr m1) L (map noTime es1) = createSSTable P (er_mgr m2) L (map noTime es2)"
    using assms by simp
  then show "er_mgr (snd (createSSTable P m1 L es1)) = er_mgr (snd (createSSTable P m2 L es2))"
    by (simp add: createSSTable_er)
  have "sizable P (map noTime es1) = sizable P (map noTime es2)"
    using assms(2) by simp
  then show "map_sum id sst_id (fst (createSSTable P m1 L es1))
               = map_sum id sst_id (fst (createSSTable P m2 L es2))"
    using er_mgr_eq_nextId [OF assms(1)] by (simp add: fst_createSSTable)
qed

lemma flushMemtable_alike:
  assumes "alike s1 s2"
  shows "fst (flushMemtable P s1) = fst (flushMemtable P s2)"
    and "alike (snd (flushMemtable P s1)) (snd (flushMemtable P s2))"
proof -
  have es: "map noTime (getAllEntries (memtable s1)) = map noTime (getAllEntries (memtable s2))"
    using assms by (simp add: getAllEntries_noTime alike_def)
  have m: "er_mgr (sstableManager s1) = er_mgr (sstableManager s2)"
    using assms by (simp add: alike_def)
  note c = createSSTable_alike [OF m es, of P 0]
  let ?c1 = "createSSTable P (sstableManager s1) 0 (getAllEntries (memtable s1))"
  let ?c2 = "createSSTable P (sstableManager s2) 0 (getAllEntries (memtable s2))"
  show "fst (flushMemtable P s1) = fst (flushMemtable P s2)"
    using assms c(2)
    by (cases "fst ?c1"; cases "fst ?c2")
       (simp_all add: flushMemtable_def isEmpty_def alike_def split_beta Let_def)
  show "alike (snd (flushMemtable P s1)) (snd (flushMemtable P s2))"
    using assms c
    by (cases "fst ?c1"; cases "fst ?c2")
       (simp_all add: flushMemtable_def isEmpty_def alike_def split_beta Let_def SkipList_clear_def
          pairs_def)
qed

lemma flushMemtable_ordered: "ordered s \<Longrightarrow> ordered (snd (flushMemtable P s))"
  by (simp add: flushMemtable_def ordered_def split_beta Let_def SkipList_clear_def
      split: sum.splits)

lemma maybeFlush_alike:
  assumes "alike s1 s2"
  shows "fst (maybeFlush P s1) = fst (maybeFlush P s2)"
    and "alike (snd (maybeFlush P s1)) (snd (maybeFlush P s2))"
  using assms flushMemtable_alike [OF assms, of P]
  by (auto simp add: maybeFlush_def alike_def)

lemma maybeFlush_ordered: "ordered s \<Longrightarrow> ordered (snd (maybeFlush P s))"
  by (simp add: maybeFlush_def flushMemtable_ordered)

lemma insert_alike:
  assumes "alike s1 s2" "ordered s1" "ordered s2"
  shows "fst (SkipList_insert e1 (memtable s1) key val) = fst (SkipList_insert e2 (memtable s2) key val)"
    and "pairs (sl_nodes (snd (SkipList_insert e1 (memtable s1) key val)))
           = pairs (sl_nodes (snd (SkipList_insert e2 (memtable s2) key val)))"
    and "sl_size (snd (SkipList_insert e1 (memtable s1) key val))
           = sl_size (snd (SkipList_insert e2 (memtable s2) key val))"
    and "sl_maxLevel (snd (SkipList_insert e1 (memtable s1) key val))
           = sl_maxLevel (snd (SkipList_insert e2 (memtable s2) key val))"
    and "sl_probability (snd (SkipList_insert e1 (memtable s1) key val))
           = sl_probability (snd (SkipList_insert e2 (memtable s2) key val))"
proof -
  from assms have o1: "sorted (map n_key (sl_nodes (memtable s1)))"
    and o2: "sorted (map n_key (sl_nodes (memtable s2)))"
    by (simp_all add: ordered_def)
  note a = SkipList_insert_sorted [OF o1, of e1 key val]
    and b = SkipList_insert_sorted [OF o2, of e2 key val]
  from assms(1) have p: "pairs (sl_nodes (memtable s1)) = pairs (sl_nodes (memtable s2))"
    and z: "sl_size (memtable s1) = sl_size (memtable s2)"
    and ml: "sl_maxLevel (memtable s1) = sl_maxLevel (memtable s2)"
    and pr: "sl_probability (memtable s1) = sl_probability (memtable s2)"
    by (simp_all add: alike_def)
  show "fst (SkipList_insert e1 (memtable s1) key val) = fst (SkipList_insert e2 (memtable s2) key val)"
    by (rule insert_result.equality) (simp_all add: a b p z)
  show "pairs (sl_nodes (snd (SkipList_insert e1 (memtable s1) key val)))
           = pairs (sl_nodes (snd (SkipList_insert e2 (memtable s2) key val)))"
    by (simp add: a b p)
  show "sl_size (snd (SkipList_insert e1 (memtable s1) key val))
           = sl_size (snd (SkipList_insert e2 (memtable s2) key val))"
    by (simp add: a b p z)
  show "sl_maxLevel (snd (SkipList_insert e1 (memtable s1) key val))
           = sl_maxLevel (snd (SkipList_insert e2 (memtable s2) key val))"
    by (simp add: a b ml)
  show "sl_probability (snd (SkipList_insert e1 (memtable s1) key val))
           = sl_probability (snd (SkipList_insert e2 (memtable s2) key val))"
    by (simp add: a b pr)
qed

lemma runAutoCompaction_alike:
  assumes "er_mgr m1 = er_mgr m2"
  shows "er_out (runAutoCompaction P m1 c) = er_out (runAutoCompaction P m2 c)"
  using assms runAutoCompaction_er [of P m1 c] runAutoCompaction_er [of P m2 c] by simp

lemma compactLevel_alike:
  assumes "er_mgr m1 = er_mgr m2"
  shows "er_out (compactLevel P src tgt m1 c) = er_out (compactLevel P src tgt m2 c)"
  using assms compactLevel_er [of P src tgt m1 c] compactLevel_er [of P src tgt m2 c] by simp

lemma inserted_alike:
  assumes "alike s1 s2" "ordered s1" "ordered s2"
  shows "alike (inserted e1 s1 key val (f (stats s1))) (inserted e2 s2 key val (f (stats s2)))"
  using assms insert_alike [OF assms, of e1 key val e2]
  by (simp add: alike_def inserted_def)

lemma inserted_ordered: "ordered s \<Longrightarrow> ordered (inserted e s key val st)"
  by (simp add: ordered_def inserted_def SkipList_insert_keeps_sorted)

lemma LSMTree_put_steps:
  "LSMTree_put P e s key val =
     (let s1 = inserted e s key val ((stats s)\<lparr>totalWrites := totalWrites (stats s) + 1\<rparr>);
          s2 = snd (maybeFlush P s1);
          r = runAutoCompaction P (sstableManager s2) (compaction s2);
          s3 = s2\<lparr>sstableManager := fst (snd r), compaction := snd (snd r)\<rparr>
      in case fst (maybeFlush P s1) of
           Inl err \<Rightarrow> (Inl err, s2)
         | Inr flushResult \<Rightarrow>
             (case fst r of
                Inl err \<Rightarrow> (Inl err, s3)
              | Inr compactionResults \<Rightarrow>
                  (Inr \<lparr>p_operation = ''PUT'', p_key = key,
                        p_memtableResult = fst (SkipList_insert e (memtable s) key val),
                        p_flushed = (flushResult \<noteq> None),
                        p_flushResult = flushResult,
                        p_compacted = (length compactionResults > 0),
                        p_compactionResults = compactionResults\<rparr>,
                   if length compactionResults > 0
                   then s3\<lparr>stats := (stats s3)\<lparr>totalCompactions :=
                                        totalCompactions (stats s3) + length compactionResults\<rparr>\<rparr>
                   else s3)))"
  by (simp add: LSMTree_put_def inserted_def maybeFlush_def Let_def split_beta
      split: sum.splits)

lemma LSMTree_delete_steps:
  "LSMTree_delete P e s key =
     (let s1 = inserted e s key None ((stats s)\<lparr>totalDeletes := totalDeletes (stats s) + 1\<rparr>)
      in (case fst (maybeFlush P s1) of
            Inl err \<Rightarrow> Inl err
          | Inr flushResult \<Rightarrow>
              Inr \<lparr>d_operation = ''DELETE'', d_key = key,
                   d_memtableResult = fst (SkipList_insert e (memtable s) key None),
                   d_flushed = (flushResult \<noteq> None),
                   d_flushResult = flushResult\<rparr>,
          snd (maybeFlush P s1)))"
  by (simp add: LSMTree_delete_def inserted_def maybeFlush_def Let_def split_beta
      split: sum.splits)

lemma er_out_eq:
  assumes "er_out r1 = er_out r2"
  shows "fst r1 = fst r2" "er_mgr (fst (snd r1)) = er_mgr (fst (snd r2))" "snd (snd r1) = snd (snd r2)"
  using assms by (cases r1; cases r2; simp)+

lemma LSMTree_put_alike:
  assumes "alike s1 s2" "ordered s1" "ordered s2"
  shows "fst (LSMTree_put P e1 s1 key val) = fst (LSMTree_put P e2 s2 key val)"
    and "alike (snd (LSMTree_put P e1 s1 key val)) (snd (LSMTree_put P e2 s2 key val))"
proof -
  let ?a1 = "inserted e1 s1 key val ((stats s1)\<lparr>totalWrites := totalWrites (stats s1) + 1\<rparr>)"
  let ?a2 = "inserted e2 s2 key val ((stats s2)\<lparr>totalWrites := totalWrites (stats s2) + 1\<rparr>)"
  have a: "alike ?a1 ?a2"
    using inserted_alike [OF assms, of e1 key val "\<lambda>st. st\<lparr>totalWrites := totalWrites st + 1\<rparr>" e2]
    by simp
  let ?b1 = "snd (maybeFlush P ?a1)" and ?b2 = "snd (maybeFlush P ?a2)"
  note fl = maybeFlush_alike [OF a, of P]
  from fl(2) have m: "er_mgr (sstableManager ?b1) = er_mgr (sstableManager ?b2)"
    and c: "compaction ?b1 = compaction ?b2"
    by (simp_all add: alike_def)
  let ?r1 = "runAutoCompaction P (sstableManager ?b1) (compaction ?b1)"
  let ?r2 = "runAutoCompaction P (sstableManager ?b2) (compaction ?b2)"
  have "er_out ?r1 = er_out ?r2"
    using runAutoCompaction_alike [OF m, of P "compaction ?b1"] c by simp
  note r = er_out_eq [OF this]
  have ins: "fst (SkipList_insert e1 (memtable s1) key val) = fst (SkipList_insert e2 (memtable s2) key val)"
    by (rule insert_alike(1) [OF assms])
  show "fst (LSMTree_put P e1 s1 key val) = fst (LSMTree_put P e2 s2 key val)"
    unfolding LSMTree_put_steps Let_def using r(1) fl(1) ins
    by (cases "fst (maybeFlush P ?a2)"; cases "fst ?r2") simp_all
  show "alike (snd (LSMTree_put P e1 s1 key val)) (snd (LSMTree_put P e2 s2 key val))"
    unfolding LSMTree_put_steps Let_def using r fl
    by (cases "fst (maybeFlush P ?a2)"; cases "fst ?r2") (simp_all add: alike_def)
qed

lemma LSMTree_put_ordered: "ordered s \<Longrightarrow> ordered (snd (LSMTree_put P e s key val))"
proof -
  assume "ordered s"
  then have "ordered (snd (maybeFlush P
      (inserted e s key val ((stats s)\<lparr>totalWrites := totalWrites (stats s) + 1\<rparr>))))"
    by (intro maybeFlush_ordered inserted_ordered)
  then show ?thesis
    unfolding LSMTree_put_steps Let_def
    by (simp add: ordered_def split: sum.splits)
qed

lemma LSMTree_delete_alike:
  assumes "alike s1 s2" "ordered s1" "ordered s2"
  shows "fst (LSMTree_delete P e1 s1 key) = fst (LSMTree_delete P e2 s2 key)"
    and "alike (snd (LSMTree_delete P e1 s1 key)) (snd (LSMTree_delete P e2 s2 key))"
proof -
  let ?a1 = "inserted e1 s1 key None ((stats s1)\<lparr>totalDeletes := totalDeletes (stats s1) + 1\<rparr>)"
  let ?a2 = "inserted e2 s2 key None ((stats s2)\<lparr>totalDeletes := totalDeletes (stats s2) + 1\<rparr>)"
  have a: "alike ?a1 ?a2"
    using inserted_alike [OF assms, of e1 key None "\<lambda>st. st\<lparr>totalDeletes := totalDeletes st + 1\<rparr>" e2]
    by simp
  note fl = maybeFlush_alike [OF a, of P]
  have ins: "fst (SkipList_insert e1 (memtable s1) key None) = fst (SkipList_insert e2 (memtable s2) key None)"
    by (rule insert_alike(1) [OF assms])
  show "fst (LSMTree_delete P e1 s1 key) = fst (LSMTree_delete P e2 s2 key)"
    unfolding LSMTree_delete_steps Let_def using fl(1) ins
    by (cases "fst (maybeFlush P ?a2)") simp_all
  show "alike (snd (LSMTree_delete P e1 s1 key)) (snd (LSMTree_delete P e2 s2 key))"
    unfolding LSMTree_delete_steps Let_def using fl(2) by simp
qed

lemma LSMTree_delete_ordered: "ordered s \<Longrightarrow> ordered (snd (LSMTree_delete P e s key))"
  unfolding LSMTree_delete_steps Let_def
  by (simp add: maybeFlush_ordered inserted_ordered)

lemma LSMTree_get_alike:
  assumes "alike s1 s2" "ordered s1" "ordered s2"
  shows "fst (LSMTree_get s1 key) = fst (LSMTree_get s2 key)"
    and "alike (snd (LSMTree_get s1 key)) (snd (LSMTree_get s2 key))"
proof -
  from assms have o1: "sorted (map n_key (sl_nodes (memtable s1)))"
    and o2: "sorted (map n_key (sl_nodes (memtable s2)))"
    by (simp_all add: ordered_def)
  have mem: "SkipList_search (memtable s1) key = SkipList_search (memtable s2) key"
    using assms(1) by (simp add: SkipList_search_sorted [OF o1] SkipList_search_sorted [OF o2] alike_def)
  have "SSTableManager_search (er_mgr (sstableManager s1)) key
          = SSTableManager_search (er_mgr (sstableManager s2)) key"
    using assms(1) by (simp add: alike_def)
  then have disk: "SSTableManager_search (sstableManager s1) key
          = SSTableManager_search (sstableManager s2) key"
    by (simp add: SSTableManager_search_er)
  have st: "stats s1 = stats s2" using assms(1) by (simp add: alike_def)
  show "fst (LSMTree_get s1 key) = fst (LSMTree_get s2 key)"
    using mem disk st by (simp add: LSMTree_get_def Let_def split: sum.splits)
  show "alike (snd (LSMTree_get s1 key)) (snd (LSMTree_get s2 key))"
    using mem disk st assms(1) by (simp add: LSMTree_get_def Let_def alike_def split: sum.splits)
qed

lemma LSMTree_get_ordered: "ordered s \<Longrightarrow> ordered (snd (LSMTree_get s key))"
  by (simp add: LSMTree_get_def Let_def ordered_def split: sum.splits)

lemma LSMTree_compact_alike:
  assumes "alike s1 s2"
  shows "fst (LSMTree_compact P s1 src tgt) = fst (LSMTree_compact P s2 src tgt)"
    and "alike (snd (LSMTree_compact P s1 src tgt)) (snd (LSMTree_compact P s2 src tgt))"
proof -
  from assms have m: "er_mgr (sstableManager s1) = er_mgr (sstableManager s2)"
    and c: "compaction s1 = compaction s2"
    by (simp_all add: alike_def)
  let ?r1 = "compactLevel P src tgt (sstableManager s1) (compaction s1)"
  let ?r2 = "compactLevel P src tgt (sstableManager s2) (compaction s2)"
  have "er_out ?r1 = er_out ?r2"
    using compactLevel_alike [OF m, of P src tgt "compaction s1"] c by simp
  note r = er_out_eq [OF this]
  show "fst (LSMTree_compact P s1 src tgt) = fst (LSMTree_compact P s2 src tgt)"
    using r(1) by (simp add: LSMTree_compact_def Let_def split_beta split: sum.splits compaction_result.splits)
  show "alike (snd (LSMTree_compact P s1 src tgt)) (snd (LSMTree_compact P s2 src tgt))"
    using r assms
    by (simp add: LSMTree_compact_def Let_def split_beta alike_def
        split: sum.splits compaction_result.splits)
qed

lemma LSMTree_compact_ordered: "ordered s \<Longrightarrow> ordered (snd (LSMTree_compact P s src tgt))"
  by (simp add: LSMTree_compact_def Let_def split_beta ordered_def
      split: sum.splits compaction_result.splits)

lemma LSMTree_clear_alike: "alike s1 s2 \<Longrightarrow> alike (LSMTree_clear s1) (LSMTree_clear s2)"
  by (simp add: LSMTree_clear_def alike_def SkipList_clear_def SSTableManager_clear_def
      er_mgr_def pairs_def)

lemma LSMTree_clear_ordered: "ordered (LSMTree_clear s)"
  by (simp add: LSMTree_clear_def ordered_def SkipList_clear_def)

lemma applyOperation_alike:
  assumes "alike s1 s2" "ordered s1" "ordered s2"
  shows "fst (applyOperation P e1 operation s1) = fst (applyOperation P e2 operation s2)"
    and "alike (snd (applyOperation P e1 operation s1)) (snd (applyOperation P e2 operation s2))"
    and "ordered (snd (applyOperation P e1 operation s1))"
proof -
  show "fst (applyOperation P e1 operation s1) = fst (applyOperation P e2 operation s2)"
    using LSMTree_put_alike(1) [OF assms] LSMTree_delete_alike(1) [OF assms]
      LSMTree_get_alike(1) [OF assms] LSMTree_compact_alike(1) [OF assms(1)]
    by (cases operation) (simp_all add: split_beta)
  show "alike (snd (applyOperation P e1 operation s1)) (snd (applyOperation P e2 operation s2))"
    using LSMTree_put_alike(2) [OF assms] LSMTree_delete_alike(2) [OF assms]
      LSMTree_get_alike(2) [OF assms] LSMTree_compact_alike(2) [OF assms(1)]
      LSMTree_clear_alike [OF assms(1)]
    by (cases operation) (simp_all add: split_beta)
  show "ordered (snd (applyOperation P e1 operation s1))"
    using assms(2)
    by (cases operation)
       (simp_all add: split_beta LSMTree_put_ordered LSMTree_delete_ordered LSMTree_get_ordered
          LSMTree_compact_ordered LSMTree_clear_ordered)
qed

lemma run_alike:
  assumes "map snd eops1 = map snd eops2" "alike s1 s2" "ordered s1" "ordered s2"
  shows "fst (run P eops1 s1) = fst (run P eops2 s2)"
  using assms
proof (induction eops1 arbitrary: eops2 s1 s2)
  case Nil
  then show ?case by simp
next
  case (Cons eo eops1)
  obtain e1 operation where eo: "eo = (e1, operation)" by (cases eo) auto
  from Cons.prems(1) eo obtain e2 rest where
    eops2: "eops2 = (e2, operation) # rest" and rest: "map snd eops1 = map snd rest"
    by (cases eops2) auto
  note out = applyOperation_alike(1) [OF Cons.prems(2,3,4), of P e1 operation e2]
    and st = applyOperation_alike(2) [OF Cons.prems(2,3,4), of P e1 operation e2]
    and o1 = applyOperation_alike(3) [OF Cons.prems(2,3,4), of P e1 operation]
    and o2 = applyOperation_alike(3) [OF alike_sym [OF Cons.prems(2)] Cons.prems(4,3),
                of P e2 operation]
  have "fst (run P eops1 (snd (applyOperation P e1 operation s1)))
          = fst (run P rest (snd (applyOperation P e2 operation s2)))"
    by (rule Cons.IH [OF rest st o1 o2])
  with out show ?case by (simp add: eo eops2 split_beta)
qed

section \<open>The trigger of the auto-compaction\<close>

lemma triggerAt_history:
  assumes "triggerAt P L m c rs m' c'"
  shows "cmp_compactionHistory c' = cmp_compactionHistory c @ rs"
proof (cases "threshold L \<le> length (getLevel m L)")
  case False
  with assms show ?thesis by (simp add: triggerAt_def)
next
  case True
  with assms obtain r where r: "rs = [r]" "compactLevel P L (L + 1) m c = (Inr (Success r), m', c')"
    by (auto simp add: triggerAt_def split: list.splits)
  from compactLevel_success [OF r(2)] r(1) show ?thesis by simp
qed

lemma autoCompactionLoop_step:
  assumes "autoCompactionLoop P (L # rest) m c res = (Inr out, m', c')"
  shows "\<exists>rs m1 c1. triggerAt P L m c rs m1 c1 \<and>
           autoCompactionLoop P rest m1 c1 (res @ rs) = (Inr out, m', c')"
proof (cases "shouldCompact m L")
  case False
  with assms have "triggerAt P L m c [] m c"
    and "autoCompactionLoop P rest m c (res @ []) = (Inr out, m', c')"
    by (simp_all add: triggerAt_def shouldCompact_def)
  then show ?thesis by blast
next
  case True
  obtain o1 m1 c1 where c: "compactLevel P L (L + 1) m c = (o1, m1, c1)"
    by (cases "compactLevel P L (L + 1) m c") auto
  show ?thesis
  proof (cases o1)
    case (Inl e)
    with assms True c show ?thesis by simp
  next
    case (Inr cr)
    show ?thesis
    proof (cases cr)
      case (Failure msg)
      with Inr c have "getLevel m L = []"
        by (auto simp add: compactLevel_unfold split: if_splits sum.splits prod.splits)
      with True show ?thesis using threshold_pos [of L] by (simp add: shouldCompact_def)
    next
      case (Success r)
      with Inr c True assms have "triggerAt P L m c [r] m1 c1"
        and "autoCompactionLoop P rest m1 c1 (res @ [r]) = (Inr out, m', c')"
        by (simp_all add: triggerAt_def shouldCompact_def)
      then show ?thesis by blast
    qed
  qed
qed

lemma runAutoCompaction_chain:
  assumes "runAutoCompaction P m c = (Inr out, m', c')"
  shows "\<exists>rs0 m1 c1 rs1 m2 c2 rs2.
           triggerAt P 0 m c rs0 m1 c1 \<and> triggerAt P 1 m1 c1 rs1 m2 c2 \<and>
           triggerAt P 2 m2 c2 rs2 m' c' \<and> out = rs0 @ rs1 @ rs2"
proof -
  from assms have "autoCompactionLoop P [0, 1, 2] m c [] = (Inr out, m', c')"
    by (simp add: runAutoCompaction_def)
  from autoCompactionLoop_step [OF this] obtain rs0 m1 c1 where
    t0: "triggerAt P 0 m c rs0 m1 c1"
    and l1: "autoCompactionLoop P [1, 2] m1 c1 rs0 = (Inr out, m', c')"
    by auto
  from autoCompactionLoop_step [OF l1] obtain rs1 m2 c2 where
    t1: "triggerAt P 1 m1 c1 rs1 m2 c2"
    and l2: "autoCompactionLoop P [2] m2 c2 (rs0 @ rs1) = (Inr out, m', c')"
    by auto
  from autoCompactionLoop_step [OF l2] obtain rs2 m3 c3 where
    t2: "triggerAt P 2 m2 c2 rs2 m3 c3"
    and l3: "autoCompactionLoop P [] m3 c3 ((rs0 @ rs1) @ rs2) = (Inr out, m', c')"
    by auto
  from l3 have "out = rs0 @ rs1 @ rs2" "m3 = m'" "c3 = c'" by simp_all
  with t0 t1 t2 show ?thesis by blast
qed

lemma LSMTree_put_returns:
  assumes "LSMTree_put P e s key val = (Inr r, s')"
  shows "runAutoCompaction P
           (if p_flushed r
            then snd (createSSTable P (sstableManager s) 0
                        (getAllEntries (snd (SkipList_insert e (memtable s) key val))))
            else sstableManager s)
           (compaction s)
         = (Inr (p_compactionResults r), sstableManager s', compaction s')"
    and "totalCompactions (stats s') = totalCompactions (stats s) + length (p_compactionResults r)"
proof -
  define s1 where "s1 = inserted e s key val ((stats s)\<lparr>totalWrites := totalWrites (stats s) + 1\<rparr>)"
  define s2 where "s2 = snd (maybeFlush P s1)"
  define ac where "ac = runAutoCompaction P (sstableManager s2) (compaction s2)"
  note put = assms [unfolded LSMTree_put_steps Let_def, folded s1_def, folded s2_def, folded ac_def]
  from put obtain flushResult where fr: "fst (maybeFlush P s1) = Inr flushResult"
    by (cases "fst (maybeFlush P s1)") auto
  from put fr obtain out where oc: "fst ac = Inr out"
    by (cases "fst ac") auto
  from put fr oc have r: "p_flushed r = (flushResult \<noteq> None)" "p_compactionResults r = out"
    and s': "sstableManager s' = fst (snd ac)" "compaction s' = snd (snd ac)"
      "totalCompactions (stats s') = totalCompactions (stats s2) + length out"
    by (auto split: if_splits)
  from fr have s2: "compaction s2 = compaction s"
      "totalCompactions (stats s2) = totalCompactions (stats s)"
      "sstableManager s2 = (if flushResult \<noteq> None
         then snd (createSSTable P (sstableManager s) 0
                (getAllEntries (snd (SkipList_insert e (memtable s) key val))))
         else sstableManager s)"
    by (auto simp add: s2_def s1_def maybeFlush_def inserted_def flushMemtable_def Let_def
        split_beta split: if_splits sum.splits)
  have "ac = (Inr out, sstableManager s', compaction s')"
    using oc s'(1,2) by (cases ac) simp
  with r s2
  show "runAutoCompaction P
           (if p_flushed r
            then snd (createSSTable P (sstableManager s) 0
                        (getAllEntries (snd (SkipList_insert e (memtable s) key val))))
            else sstableManager s)
           (compaction s)
         = (Inr (p_compactionResults r), sstableManager s', compaction s')"
    by (simp add: ac_def)
  from s'(3) s2(2) r(2)
  show "totalCompactions (stats s') = totalCompactions (stats s) + length (p_compactionResults r)"
    by simp
qed

section \<open>The platform of the examples\<close>

lemma jsonLength_examplePlatform [simp]: "jsonLength examplePlatform v = Some (length v + 2)"
  by (simp add: examplePlatform_def)


section \<open>Claims\<close>

text \<open>
  The equations that evaluate a run of the engine on closed inputs. A table stays the
  term \<open>tableOf P id level entries\<close>; its fields and its lookups are rewritten by
  the lemmas about the constructor.
\<close>

lemmas eval_simps =
  LSMTree_new_def SkipList_new_def SSTableManager_new_def Compaction_new_def stats_new_def
  LSMTree_put_def LSMTree_get_def LSMTree_delete_def LSMTree_compact_def LSMTree_clear_def
  flushMemtable_def isEmpty_def getAllEntries_def SkipList_clear_def SkipList_insert_def
  SkipList_search_def advance.simps randomLevel_def randomLevelLoop.simps
  runAutoCompaction_def shouldCompact_def threshold_def compactLevel_def getLevel_def
  clearLevel_def addSSTable_def createSSTable_tableOf sizable_def findOverlappingSSTables_def
  rangesOverlap_def
  falsy_def kWayMerge_def mergeLoop.simps MinHeap_insert_def extractMin_def bubbleUp.simps
  bubbleDown.simps smallestOf_def swap_def SSTableManager_search_def containsKeyInRange_def
  getKeyRange_def tableOf_get_distinct trackBloom_def foundValue_def Let_def
  SSTableManager_clear_def clearHistory_def exampleEnv_def puts_def deletes_def

text \<open>
  C6. Bloom no-false-negative: a filter made by the constructor answers
  \<open>mightExist = true\<close> for every key that was passed to \<open>add\<close>, and the filter of every
  table that the SSTable constructor returns answers \<open>mightExist = true\<close> for the key of
  every record of the table.
\<close>

theorem bloom_no_false_negative:
  "(key \<in> set keys \<longrightarrow>
      BloomFilter_contains (foldl BloomFilter_add (BloomFilter_new P n) keys) key) \<and>
   (SSTable_new P ident lvl input = Inr t \<longrightarrow> e \<in> set (sst_entries t) \<longrightarrow>
      BloomFilter_contains (sst_bloomFilter t) (e_key e))"
proof (intro conjI impI)
  assume "key \<in> set keys"
  then show "BloomFilter_contains (foldl BloomFilter_add (BloomFilter_new P n) keys) key"
    by (rule contains_foldl_add_member [OF bf_consistent_new])
next
  assume "SSTable_new P ident lvl input = Inr t" and "e \<in> set (sst_entries t)"
  then have t: "t = tableOf P ident lvl input" and "e_key e \<in> e_key ` set (sort_key e_key input)"
    by (simp_all add: SSTable_new_Inr)
  then show "BloomFilter_contains (sst_bloomFilter t) (e_key e)"
    by (simp add: buildBloomFilter_contains)
qed

theorem bloom_no_false_negative_witness:
  "BloomFilter_contains
     (foldl BloomFilter_add (BloomFilter_new examplePlatform 2) [''user1'', ''user2'']) ''user2'' \<and>
   (\<exists>t. SSTable_new examplePlatform ''sstable-1'' 0
           [\<lparr>e_key = ''user1'', e_value = Some ''alice'', e_timestamp = 5\<rparr>] = Inr t \<and>
        sst_entries t = [\<lparr>e_key = ''user1'', e_value = Some ''alice'', e_timestamp = 5\<rparr>] \<and>
        BloomFilter_contains (sst_bloomFilter t) ''user1'')"
proof -
  let ?e = "\<lparr>e_key = ''user1'', e_value = Some ''alice'', e_timestamp = (5::nat)\<rparr>"
  let ?t = "tableOf examplePlatform ''sstable-1'' 0 [?e]"
  have new: "SSTable_new examplePlatform ''sstable-1'' 0 [?e] = Inr ?t"
    by (simp add: SSTable_new_tableOf sizable_def)
  have es: "sst_entries ?t = [?e]" by simp
  from bloom_no_false_negative [of "''user2''" "[''user1'', ''user2'']" examplePlatform 2
      "''sstable-1''" 0 "[?e]" ?t ?e] new es
  show ?thesis by simp
qed

text \<open>
  C7. Point lookup in a table that the SSTable constructor returns for any sequence of
  records: \<open>get\<close> returns without error; it reports \<open>found\<close> exactly when the key occurs
  among the records, and then with the value of a stored record of that key; otherwise the
  value is absent. The tag \<open>bloomFilterSaved\<close> is true exactly when the Bloom filter
  answered \<open>mightExist = false\<close>, so a miss decided by the binary search carries \<open>false\<close>.
\<close>

theorem sstable_get_correct:
  assumes "SSTable_new P ident lvl input = Inr t"
  shows "\<exists>res. SSTable_get t key = Inr res \<and>
     (r_found res \<longleftrightarrow> key \<in> e_key ` set input) \<and>
     (r_found res \<longrightarrow> (\<exists>e \<in> set input. e_key e = key \<and> r_value res = e_value e)) \<and>
     (\<not> r_found res \<longrightarrow> r_value res = None) \<and>
     (r_bloomFilterSaved res \<longleftrightarrow> \<not> BloomFilter_contains (sst_bloomFilter t) key)"
proof -
  from assms have "t = tableOf P ident lvl input" by (simp add: SSTable_new_Inr)
  then show ?thesis by (simp only: tableOf_get)
qed

theorem sstable_get_correct_witness:
  "\<exists>t res. SSTable_new examplePlatform ''sstable-1'' 0
            [\<lparr>e_key = ''user2'', e_value = Some ''bob'', e_timestamp = 7\<rparr>,
             \<lparr>e_key = ''user1'', e_value = Some ''alice'', e_timestamp = 5\<rparr>] = Inr t \<and>
     SSTable_get t ''user2'' = Inr res \<and>
     r_found res \<and> r_value res = Some ''bob'' \<and> \<not> r_bloomFilterSaved res"
proof -
  let ?input = "[\<lparr>e_key = ''user2'', e_value = Some ''bob'', e_timestamp = 7\<rparr>,
                 \<lparr>e_key = ''user1'', e_value = Some ''alice'', e_timestamp = (5::nat)\<rparr>]"
  let ?t = "tableOf examplePlatform ''sstable-1'' 0 ?input"
  have new: "SSTable_new examplePlatform ''sstable-1'' 0 ?input = Inr ?t"
    by (simp add: SSTable_new_tableOf sizable_def)
  from sstable_get_correct [OF new, of "''user2''"]
  obtain res where res:
    "SSTable_get ?t ''user2'' = Inr res"
    "r_found res \<longleftrightarrow> ''user2'' \<in> e_key ` set ?input"
    "r_found res \<longrightarrow> (\<exists>e \<in> set ?input. e_key e = ''user2'' \<and> r_value res = e_value e)"
    "r_bloomFilterSaved res \<longleftrightarrow> \<not> BloomFilter_contains (sst_bloomFilter ?t) ''user2''"
    by blast
  from res(2) have f: "r_found res" by simp
  with res(3) have v: "r_value res = Some ''bob''" by simp
  have "BloomFilter_contains (sst_bloomFilter ?t) ''user2''"
    by (rule tableOf_bloom_contains) simp
  with res(4) have "\<not> r_bloomFilterSaved res" by simp
  with new res(1) f v show ?thesis by blast
qed

text \<open>
  C1. Recency fails on the code. With the default memtable threshold 10, ten puts (the
  first one \<open>put("k", "v1")\<close>) fill and flush the memtable into the level-0 table
  \<open>sstable-1\<close>; ten more puts (the first one \<open>put("k", "v2")\<close>) flush into \<open>sstable-2\<close>.
  \<open>SSTableManager.search\<close> walks level 0 in the order of the array, oldest table first,
  so \<open>get("k")\<close> returns the value \<open>v1\<close> of the first write, not \<open>v2\<close>.
\<close>

theorem get_returns_stale_value_across_flushes:
  "getResults (fst (run examplePlatform
     (puts [(''k'', ''v1''), (''a1'', ''x''), (''a2'', ''x''), (''a3'', ''x''), (''a4'', ''x''),
            (''a5'', ''x''), (''a6'', ''x''), (''a7'', ''x''), (''a8'', ''x''), (''a9'', ''x'')]
      @ puts [(''k'', ''v2''), (''b1'', ''x''), (''b2'', ''x''), (''b3'', ''x''), (''b4'', ''x''),
            (''b5'', ''x''), (''b6'', ''x''), (''b7'', ''x''), (''b8'', ''x''), (''b9'', ''x'')]
      @ [(exampleEnv, Get ''k'')])
     (LSMTree_new 10))) = [Inr (True, Some ''v1'')]"
  by (simp add: eval_simps)

text \<open>
  C2. Delete does not mask on the code. After \<open>put("k", "v")\<close> and \<open>delete("k")\<close> the
  memtable holds the key with the value \<open>null\<close>; \<open>SkipList.search\<close> reports it as found
  and \<open>LSMTree.get\<close> returns \<open>found: true\<close> with the value \<open>null\<close>, not a miss.
\<close>

theorem get_returns_found_tombstone:
  "getResults (fst (run examplePlatform
     [(exampleEnv, Put ''k'' (Some ''v'')), (exampleEnv, Delete ''k''), (exampleEnv, Get ''k'')]
     (LSMTree_new 10))) = [Inr (True, None)]"
  by (simp add: eval_simps)

text \<open>
  C3. Compaction changes what \<open>get\<close> returns. Ten puts (with \<open>put("k", "old")\<close>) are
  flushed and compacted into level 1; ten more puts (with \<open>put("a", "x")\<close> and
  \<open>put("k", "new")\<close>) are flushed into level 0. \<open>get("k")\<close> returns \<open>new\<close>. The heap of
  \<open>kWayMerge\<close> orders by key only: after \<open>a\<close> is extracted, the level-1 record of \<open>k\<close> is
  at the root and the level-0 record of \<open>k\<close> is inserted below it, so the merge keeps
  \<open>old\<close> and drops \<open>new\<close> as the duplicate. After \<open>compact(0, 1)\<close>, \<open>get("k")\<close> returns
  \<open>old\<close>.
\<close>

theorem compaction_changes_get_result:
  "getResults (fst (run examplePlatform
     (puts [(''k'', ''old''), (''z1'', ''x''), (''z2'', ''x''), (''z3'', ''x''), (''z4'', ''x''),
            (''z5'', ''x''), (''z6'', ''x''), (''z7'', ''x''), (''z8'', ''x''), (''z9'', ''x'')]
      @ [(exampleEnv, Compact 0 1)]
      @ puts [(''a'', ''x''), (''k'', ''new''), (''y1'', ''x''), (''y2'', ''x''), (''y3'', ''x''),
            (''y4'', ''x''), (''y5'', ''x''), (''y6'', ''x''), (''y7'', ''x''), (''y8'', ''x'')]
      @ [(exampleEnv, Get ''k''), (exampleEnv, Compact 0 1), (exampleEnv, Get ''k'')])
     (LSMTree_new 10))) = [Inr (True, Some ''new''), Inr (True, Some ''old'')]"
  by (simp add: eval_simps)

text \<open>
  C4. Range disjointness fails on the code. Ten keys \<open>c0 .. c9\<close> are flushed and
  compacted into level 1. Ten keys \<open>a0 .. a9\<close> and ten keys \<open>e0 .. e9\<close> are flushed into
  two level-0 tables. \<open>findOverlappingSSTables\<close> compares the level-1 table with each
  source table alone; it overlaps neither and stays. The compaction writes one table for
  \<open>a0 .. e9\<close> beside it: level 1 holds the ranges \<open>[c0, c9]\<close> and \<open>[a0, e9]\<close>.
\<close>

theorem level1_ranges_overlap_after_compaction:
  "map sst_keyRange (getLevel (sstableManager (snd (run examplePlatform
     (puts [(''c0'', ''x''), (''c1'', ''x''), (''c2'', ''x''), (''c3'', ''x''), (''c4'', ''x''),
            (''c5'', ''x''), (''c6'', ''x''), (''c7'', ''x''), (''c8'', ''x''), (''c9'', ''x'')]
      @ [(exampleEnv, Compact 0 1)]
      @ puts [(''a0'', ''x''), (''a1'', ''x''), (''a2'', ''x''), (''a3'', ''x''), (''a4'', ''x''),
            (''a5'', ''x''), (''a6'', ''x''), (''a7'', ''x''), (''a8'', ''x''), (''a9'', ''x'')]
      @ puts [(''e0'', ''x''), (''e1'', ''x''), (''e2'', ''x''), (''e3'', ''x''), (''e4'', ''x''),
            (''e5'', ''x''), (''e6'', ''x''), (''e7'', ''x''), (''e8'', ''x''), (''e9'', ''x'')]
      @ [(exampleEnv, Compact 0 1)])
     (LSMTree_new 10)))) 1)
   = [(Some ''c0'', Some ''c9''), (Some ''a0'', Some ''e9'')]"
  by (simp add: eval_simps)

text \<open>
  C5. The auto-compaction trigger does not follow a flush made by \<open>delete\<close>.
  \<open>LSMTree.delete\<close> flushes the memtable at the memtable threshold but does not call
  \<open>runAutoCompaction\<close>: with the memtable threshold 1, four deletes leave four tables at
  level 0, whose threshold is 4, and no compaction has run.
\<close>

theorem delete_flush_leaves_level0_at_threshold:
  "map (\<lambda>(L, tables). (L, length tables))
       (mgr_levels (sstableManager (snd (run examplePlatform
          (deletes [''a'', ''b'', ''c'', ''d'']) (LSMTree_new 1)))))
     = [(0, 4)] \<and>
   threshold 0 = 4 \<and>
   cmp_totalCompactions (compaction (snd (run examplePlatform
          (deletes [''a'', ''b'', ''c'', ''d'']) (LSMTree_new 1)))) = 0"
  by (simp add: eval_simps)

text \<open>
  C5, amended. A \<open>put\<close> that returns has run the trigger, after its insert and its flush
  if any, at the levels 0, 1 and 2 in this order, each on the manager and the compaction
  bookkeeping that the level before has left: at a level that holds at least as many
  tables as its threshold (4, 10 and 100; 1000 from level 3 on, where the trigger never
  runs) \<open>compactLevel\<close> from the level to the next one has run and succeeded, and at a
  level below its threshold nothing has changed. The \<open>put\<close> reports the records of these
  compactions in the order of the levels; they are appended to the compaction history and
  counted in \<open>totalCompactions\<close>; and when the \<open>put\<close> returns, each of the levels 0, 1
  and 2 is below its threshold. A \<open>delete\<close> leaves the compaction bookkeeping, the
  counter of compactions and every level above 0 as they were.
\<close>

theorem auto_compaction_runs_on_put_only:
  "(LSMTree_put P e s key val = (Inr r, s') \<longrightarrow>
      (\<exists>rs0 m1 c1 rs1 m2 c2 rs2.
         triggerAt P 0
           (if p_flushed r
            then snd (createSSTable P (sstableManager s) 0
                        (getAllEntries (snd (SkipList_insert e (memtable s) key val))))
            else sstableManager s)
           (compaction s) rs0 m1 c1 \<and>
         triggerAt P 1 m1 c1 rs1 m2 c2 \<and>
         triggerAt P 2 m2 c2 rs2 (sstableManager s') (compaction s') \<and>
         p_compactionResults r = rs0 @ rs1 @ rs2) \<and>
      cmp_compactionHistory (compaction s')
        = cmp_compactionHistory (compaction s) @ p_compactionResults r \<and>
      totalCompactions (stats s') = totalCompactions (stats s) + length (p_compactionResults r) \<and>
      (\<forall>L<3. length (getLevel (sstableManager s') L) < threshold L)) \<and>
   threshold 0 = 4 \<and> threshold 1 = 10 \<and> threshold 2 = 100 \<and> (\<forall>L\<ge>3. threshold L = 1000) \<and>
   compaction (snd (LSMTree_delete P e s key)) = compaction s \<and>
   totalCompactions (stats (snd (LSMTree_delete P e s key))) = totalCompactions (stats s) \<and>
   (\<forall>L>0. getLevel (sstableManager (snd (LSMTree_delete P e s key))) L
            = getLevel (sstableManager s) L)"
proof -
  have put: "(\<exists>rs0 m1 c1 rs1 m2 c2 rs2.
         triggerAt P 0
           (if p_flushed r
            then snd (createSSTable P (sstableManager s) 0
                        (getAllEntries (snd (SkipList_insert e (memtable s) key val))))
            else sstableManager s)
           (compaction s) rs0 m1 c1 \<and>
         triggerAt P 1 m1 c1 rs1 m2 c2 \<and>
         triggerAt P 2 m2 c2 rs2 (sstableManager s') (compaction s') \<and>
         p_compactionResults r = rs0 @ rs1 @ rs2) \<and>
      cmp_compactionHistory (compaction s')
        = cmp_compactionHistory (compaction s) @ p_compactionResults r \<and>
      totalCompactions (stats s') = totalCompactions (stats s) + length (p_compactionResults r) \<and>
      (\<forall>L<3. length (getLevel (sstableManager s') L) < threshold L)"
    if ret: "LSMTree_put P e s key val = (Inr r, s')"
  proof -
    note run = LSMTree_put_returns [OF ret]
    from runAutoCompaction_chain [OF run(1)] obtain rs0 m1 c1 rs1 m2 c2 rs2 where
      chain: "triggerAt P 0
           (if p_flushed r
            then snd (createSSTable P (sstableManager s) 0
                        (getAllEntries (snd (SkipList_insert e (memtable s) key val))))
            else sstableManager s)
           (compaction s) rs0 m1 c1"
        "triggerAt P 1 m1 c1 rs1 m2 c2"
        "triggerAt P 2 m2 c2 rs2 (sstableManager s') (compaction s')"
        "p_compactionResults r = rs0 @ rs1 @ rs2"
      by blast
    from chain(1,2,3) [THEN triggerAt_history] chain(4)
    have "cmp_compactionHistory (compaction s')
            = cmp_compactionHistory (compaction s) @ p_compactionResults r"
      by simp
    moreover have "\<forall>L<3. length (getLevel (sstableManager s') L) < threshold L"
      using runAutoCompaction_post [OF run(1)] by blast
    ultimately show ?thesis using chain run(2) by blast
  qed
  from put LSMTree_delete_frame [of P e s key] show ?thesis
    by (simp add: threshold_def)
qed

theorem auto_compaction_runs_on_put_only_witness:
  "(\<exists>r s'. LSMTree_put examplePlatform exampleEnv
       (snd (run examplePlatform (puts [(''a'', ''x''), (''b'', ''x''), (''c'', ''x'')]) (LSMTree_new 1)))
       ''d'' (Some ''x'') = (Inr r, s') \<and>
     map c_sourceLevel (p_compactionResults r) = [0] \<and>
     map c_targetLevel (p_compactionResults r) = [1] \<and>
     cmp_compactionHistory (compaction s') = p_compactionResults r \<and>
     length (getLevel (sstableManager s') 0) < threshold 0) \<and>
   length (getLevel (sstableManager (snd (run examplePlatform
       (puts [(''a'', ''x''), (''b'', ''x''), (''c'', ''x'')]) (LSMTree_new 1)))) 0) = 3 \<and>
   compaction (snd (LSMTree_delete examplePlatform exampleEnv
       (snd (run examplePlatform (puts [(''a'', ''x''), (''b'', ''x''), (''c'', ''x'')]) (LSMTree_new 1)))
       ''d'')) = Compaction_new"
proof -
  let ?s = "snd (run examplePlatform (puts [(''a'', ''x''), (''b'', ''x''), (''c'', ''x'')])
                   (LSMTree_new 1 :: string LSMTree))"
  have s: "?s = \<lparr>memtable = SkipList_new 16 (1 / 2), memtableThreshold = 1,
      sstableManager = \<lparr>mgr_levels = [(0, [
         tableOf examplePlatform ''sstable-1'' 0 [\<lparr>e_key = ''a'', e_value = Some ''x'', e_timestamp = 1000\<rparr>],
         tableOf examplePlatform ''sstable-2'' 0 [\<lparr>e_key = ''b'', e_value = Some ''x'', e_timestamp = 1000\<rparr>],
         tableOf examplePlatform ''sstable-3'' 0 [\<lparr>e_key = ''c'', e_value = Some ''x'', e_timestamp = 1000\<rparr>]])],
         mgr_nextId = 4\<rparr>,
      compaction = Compaction_new,
      stats = stats_new\<lparr>totalWrites := 3, memtableFlushes := 3\<rparr>\<rparr>"
    by (simp add: eval_simps)
  have "\<exists>r. fst (LSMTree_put examplePlatform exampleEnv ?s ''d'' (Some ''x'')) = Inr r \<and>
          map c_sourceLevel (p_compactionResults r) = [0] \<and>
          map c_targetLevel (p_compactionResults r) = [1]"
    unfolding s by (simp add: eval_simps)
  then obtain r where
    put: "LSMTree_put examplePlatform exampleEnv ?s ''d'' (Some ''x'')
       = (Inr r, snd (LSMTree_put examplePlatform exampleEnv ?s ''d'' (Some ''x'')))"
    and levels: "map c_sourceLevel (p_compactionResults r) = [0]"
      "map c_targetLevel (p_compactionResults r) = [1]"
    by (metis prod.collapse)
  let ?s' = "snd (LSMTree_put examplePlatform exampleEnv ?s ''d'' (Some ''x''))"
  from put auto_compaction_runs_on_put_only [of examplePlatform exampleEnv ?s "''d''" "Some ''x''" r ?s']
  have hist: "cmp_compactionHistory (compaction ?s')
            = cmp_compactionHistory (compaction ?s) @ p_compactionResults r"
    and below: "\<forall>L<3. length (getLevel (sstableManager ?s') L) < threshold L"
    and frame: "compaction (snd (LSMTree_delete examplePlatform exampleEnv ?s ''d'')) = compaction ?s"
    by blast+
  have c: "compaction ?s = Compaction_new" unfolding s by simp
  from below [rule_format, of 0]
  have low: "length (getLevel (sstableManager ?s') 0) < threshold 0" by simp
  from hist c have hist': "cmp_compactionHistory (compaction ?s') = p_compactionResults r"
    by (simp add: Compaction_new_def)
  have "\<exists>r s'. LSMTree_put examplePlatform exampleEnv ?s ''d'' (Some ''x'') = (Inr r, s') \<and>
     map c_sourceLevel (p_compactionResults r) = [0] \<and>
     map c_targetLevel (p_compactionResults r) = [1] \<and>
     cmp_compactionHistory (compaction s') = p_compactionResults r \<and>
     length (getLevel (sstableManager s') 0) < threshold 0"
  proof (intro exI conjI)
    show "LSMTree_put examplePlatform exampleEnv ?s ''d'' (Some ''x'') = (Inr r, ?s')" by (rule put)
    show "map c_sourceLevel (p_compactionResults r) = [0]" by (rule levels)
    show "map c_targetLevel (p_compactionResults r) = [1]" by (rule levels)
    show "cmp_compactionHistory (compaction ?s') = p_compactionResults r" by (rule hist')
    show "length (getLevel (sstableManager ?s') 0) < threshold 0" by (rule low)
  qed
  moreover have "length (getLevel (sstableManager ?s) 0) = 3" unfolding s by (simp add: getLevel_def)
  moreover from frame c have "compaction (snd (LSMTree_delete examplePlatform exampleEnv ?s ''d''))
      = Compaction_new" by simp
  ultimately show ?thesis by simp
qed

text \<open>
  C8. A zero-output compaction produces an output table on the code. \<open>flushMemtable\<close>
  returns without building a table when the memtable is empty, but \<open>compactLevel\<close> calls
  \<open>createSSTable\<close> whatever the merge returns and records \<open>outputSSTables: 1\<close>: ten
  deletes are flushed into one level-0 table of tombstones, and \<open>compact(0, 1)\<close> leaves
  the table \<open>sstable-2\<close>, with no records, at level 1. Such a table breaks later
  compactions: \<open>kWayMerge\<close> makes no iterator for it but counts its position, so the
  heap element of a table after it indexes beyond the iterators. With the memtable
  threshold 1, after \<open>delete("k")\<close>, \<open>compact(0, 1)\<close>, \<open>put("a", "x")\<close> and \<open>compact(0, 1)\<close>,
  level 1 holds the empty table before the table of \<open>a\<close>, and \<open>compact(1, 2)\<close> throws a
  TypeError.
\<close>

theorem zero_output_compaction_creates_table:
  "map (\<lambda>t. (sst_id t, sst_entries t))
     (getLevel (sstableManager (snd (run examplePlatform
        (deletes [''d0'', ''d1'', ''d2'', ''d3'', ''d4'', ''d5'', ''d6'', ''d7'', ''d8'', ''d9'']
         @ [(exampleEnv, Compact 0 1)])
        (LSMTree_new 10)))) 1)
     = [(''sstable-2'', [])] \<and>
   last (fst (run examplePlatform
        (deletes [''k''] @ [(exampleEnv, Compact 0 1)] @ puts [(''a'', ''x'')]
         @ [(exampleEnv, Compact 0 1), (exampleEnv, Compact 1 2)])
        (LSMTree_new 1)))
     = CompactOut (Inl TypeError)"
  by (simp add: eval_simps)

text \<open>
  C9. Construction does not fail on empty input. The SSTable constructor has no check
  of the number of entries: for an empty sequence of records it returns a table with no
  records and the key range \<open>{min: null, max: null}\<close>, and \<open>get\<close> on that table is a miss.
\<close>

theorem sstable_constructor_accepts_empty_input:
  "\<exists>t. SSTable_new examplePlatform ''sstable-1'' 0 [] = Inr t \<and>
     sst_entries t = [] \<and>
     sst_keyRange t = (None, None) \<and>
     SSTable_get t ''k'' = Inr \<lparr>r_found = False, r_value = None, r_bloomFilterSaved = False\<rparr>"
  by (simp add: SSTable_new_def calculateSize_def getKeyRange_def SSTable_get_def
      BloomFilter_contains_def getHashes_def
      buildBloomFilter_def BloomFilter_new_def examplePlatform_def buildSparseIndex_def
      binarySearch.simps)

text \<open>
  C9, amended. Constructing an SSTable throws exactly when the value of some record has
  no JSON text (\<open>calculateSize\<close> throws a TypeError); in particular it returns a table,
  with no records and no key range, for the empty sequence of records. On a table that
  the constructor has returned, \<open>get\<close> never fails and \<open>scan\<close> returns records of the
  table. A compaction of an empty source level returns the failure
  \<open>No SSTables at level n\<close> and leaves the engine, with its levels, its compaction history
  and its counters, as it was.
\<close>

theorem failure_semantics:
  "(SSTable_new P ident lvl input = Inl TypeError \<longleftrightarrow>
      (\<exists>e \<in> set input. \<exists>v. e_value e = Some v \<and> jsonLength P v = None)) \<and>
   (\<exists>t. SSTable_new P ident lvl [] = Inr t \<and> sst_entries t = [] \<and>
        sst_keyRange t = (None, None)) \<and>
   (SSTable_new P ident lvl input = Inr t \<longrightarrow>
      (\<exists>res. SSTable_get t key = Inr res) \<and>
      set (SSTable_scan t startKey endKey) \<subseteq> set input) \<and>
   (getLevel (sstableManager s) src = [] \<longrightarrow>
      LSMTree_compact P s src tgt = (Inr (Failure (''No SSTables at level '' @ decimal src)), s))"
proof (intro conjI impI)
  have "sizable P input \<longleftrightarrow> \<not> (\<exists>e \<in> set input. \<exists>v. e_value e = Some v \<and> jsonLength P v = None)"
    by (auto simp add: sizable_def list_all_iff split: option.splits)
  then show "SSTable_new P ident lvl input = Inl TypeError \<longleftrightarrow>
      (\<exists>e \<in> set input. \<exists>v. e_value e = Some v \<and> jsonLength P v = None)"
    by (simp add: SSTable_new_tableOf)
  show "\<exists>t. SSTable_new P ident lvl [] = Inr t \<and> sst_entries t = [] \<and>
        sst_keyRange t = (None, None)"
    by (simp add: SSTable_new_tableOf sizable_def getKeyRange_def)
next
  assume new: "SSTable_new P ident lvl input = Inr t"
  then have t: "t = tableOf P ident lvl input" by (simp add: SSTable_new_Inr)
  show "\<exists>res. SSTable_get t key = Inr res"
    using tableOf_get [of P ident lvl input key] t by blast
  show "set (SSTable_scan t startKey endKey) \<subseteq> set input"
  proof
    fix x assume "x \<in> set (SSTable_scan t startKey endKey)"
    then have "x \<in> set (sort_key e_key input)"
      by (auto simp add: t SSTable_scan_def Let_def dest!: set_takeWhileD in_set_dropD)
    then show "x \<in> set input" by simp
  qed
next
  assume "getLevel (sstableManager s) src = []"
  then show "LSMTree_compact P s src tgt = (Inr (Failure (''No SSTables at level '' @ decimal src)), s)"
    by (simp add: LSMTree_compact_def compactLevel_empty)
qed

theorem failure_semantics_witness:
  "SSTable_new undefinedPlatform ''sstable-1'' 0
     [\<lparr>e_key = ''k'', e_value = Some JSundefined, e_timestamp = 1000\<rparr>] = Inl TypeError \<and>
   (\<exists>t res. SSTable_new undefinedPlatform ''sstable-1'' 0
               [\<lparr>e_key = ''k'', e_value = Some (JSstring ''v''), e_timestamp = 1000\<rparr>] = Inr t \<and>
             SSTable_get t ''j'' = Inr res) \<and>
   LSMTree_compact undefinedPlatform (LSMTree_new 10) 0 1
     = (Inr (Failure ''No SSTables at level 0''), LSMTree_new 10) \<and>
   fst (LSMTree_put undefinedPlatform exampleEnv (LSMTree_new 1) ''k'' (Some JSundefined))
     = Inl TypeError"
proof -
  let ?bad = "[\<lparr>e_key = ''k'', e_value = Some JSundefined, e_timestamp = (1000::nat)\<rparr>]"
  let ?good = "[\<lparr>e_key = ''k'', e_value = Some (JSstring ''v''), e_timestamp = (1000::nat)\<rparr>]"
  let ?t = "tableOf undefinedPlatform ''sstable-1'' 0 ?good"
  have u: "jsonLength undefinedPlatform JSundefined = None"
    by (simp add: undefinedPlatform_def)
  have g: "SSTable_new undefinedPlatform ''sstable-1'' 0 ?good = Inr ?t"
    by (simp add: SSTable_new_tableOf sizable_def undefinedPlatform_def)
  have e: "getLevel (sstableManager (LSMTree_new 10 :: example_value LSMTree)) 0 = []"
    by (simp add: getLevel_def LSMTree_new_def SSTableManager_new_def)
  from failure_semantics [of undefinedPlatform "''sstable-1''" 0 ?bad ?t "''j''" "''a''" "''z''"
      "LSMTree_new 10" 0 1] u e
  have "SSTable_new undefinedPlatform ''sstable-1'' 0 ?bad = Inl TypeError"
    and "LSMTree_compact undefinedPlatform (LSMTree_new 10) 0 1
           = (Inr (Failure ''No SSTables at level 0''), LSMTree_new 10)"
    by simp_all
  moreover from failure_semantics [of undefinedPlatform "''sstable-1''" 0 ?good ?t "''j''"] g
  have "\<exists>res. SSTable_get ?t ''j'' = Inr res" by blast
  moreover have "fst (LSMTree_put undefinedPlatform exampleEnv (LSMTree_new 1) ''k'' (Some JSundefined))
     = Inl TypeError"
    by (simp add: eval_simps u)
  ultimately show ?thesis using g by blast
qed

text \<open>
  C10. Determinism of the observable results. Two runs of the same sequence of put, get,
  delete, compact and clear operations on a new engine, with any values of \<open>Date.now()\<close>
  and any samples of \<open>Math.random()\<close> in either run, give the same found flag and the same
  value in every \<open>get\<close> result. The search of the manager and the k-way merge give the
  same results on tables whose record timestamps are erased.
\<close>

theorem get_results_deterministic:
  assumes "map snd run1 = map snd run2"
  shows "getResults (fst (run P run1 (LSMTree_new limit)))
           = getResults (fst (run P run2 (LSMTree_new limit))) \<and>
         SSTableManager_search (er_mgr m) key = SSTableManager_search m key \<and>
         kWayMerge (map er_sst ts)
           = (case kWayMerge ts of Inl e \<Rightarrow> Inl e | Inr (es, st) \<Rightarrow> Inr (map noTime es, st))"
proof -
  have a: "alike (LSMTree_new limit :: 'a LSMTree) (LSMTree_new limit)"
    by (simp add: alike_def)
  have o: "ordered (LSMTree_new limit :: 'a LSMTree)"
    by (simp add: ordered_def LSMTree_new_def SkipList_new_def)
  have "fst (run P run1 (LSMTree_new limit)) = fst (run P run2 (LSMTree_new limit))"
    using assms a o o by (rule run_alike)
  then show ?thesis by (simp add: SSTableManager_search_er kWayMerge_er)
qed

theorem get_results_deterministic_witness:
  "getResults (fst (run examplePlatform
      [(\<lparr>now = 1000, random = (\<lambda>i. 3 / 4)\<rparr>, Put ''k'' (Some ''v'')),
       (\<lparr>now = 1001, random = (\<lambda>i. 3 / 4)\<rparr>, Get ''k'')]
      (LSMTree_new 10)))
   = getResults (fst (run examplePlatform
      [(\<lparr>now = 2000, random = (\<lambda>i. 1 / 4)\<rparr>, Put ''k'' (Some ''v'')),
       (\<lparr>now = 2500, random = (\<lambda>i. 1 / 4)\<rparr>, Get ''k'')]
      (LSMTree_new 10)))"
proof -
  have "map snd [(\<lparr>now = 1000, random = (\<lambda>i. 3 / 4)\<rparr>, Put ''k'' (Some ''v'')),
                 (\<lparr>now = 1001, random = (\<lambda>i. 3 / 4)\<rparr>, Get ''k'')]
      = map snd [(\<lparr>now = 2000, random = (\<lambda>i. 1 / 4)\<rparr>, Put ''k'' (Some ''v'')),
                 (\<lparr>now = 2500, random = (\<lambda>i. 1 / 4)\<rparr>, Get ''k'')]"
    by simp
  from get_results_deterministic [OF this, where P = examplePlatform and limit = 10]
  show ?thesis by (rule conjunct1)
qed

end
